theory Spec2Isabelle
  imports Main
begin

section \<open>The credential store\<close>

text \<open>
  The Mongoose schema \<^verbatim>\<open>userSchema\<close> of \<^verbatim>\<open>backend/server.js\<close>. A document is a
  record; \<open>uid\<close> is Mongo's \<^verbatim>\<open>_id\<close>. \<open>apiKey\<close> is optional (the index is sparse) and
  \<open>dailyReset\<close> may be missing (the code tests \<^verbatim>\<open>!user.dailyReset\<close>). Dates are
  milliseconds since the epoch, as \<^verbatim>\<open>Date\<close> subtraction yields them. \<open>dailyCount\<close> is a
  JavaScript number that the code only ever sets to 0 or increments by 1, so it is
  an integer here (exact below \<open>2^53\<close>).
\<close>

datatype plan = Free | Premium

record user =
  uid :: nat
  email :: string
  passwordHash :: string
  apiKey :: "string option"
  plan :: plan
  createdAt :: int
  dailyCount :: int
  dailyReset :: "int option"

text \<open>The collection, in insertion order.\<close>

type_synonym store = "user list"

text \<open>
  \<^verbatim>\<open>User.findOne(filter)\<close> and \<^verbatim>\<open>User.findById(id)\<close>: the first matching document, or
  \<^verbatim>\<open>null\<close>. Both are queries; they hand the collection back as they found it.
\<close>

definition findOne :: "(user \<Rightarrow> bool) \<Rightarrow> store \<Rightarrow> user option \<times> store" where
  "findOne P s = (find P s, s)"

definition findById :: "nat \<Rightarrow> store \<Rightarrow> user option \<times> store" where
  "findById i s = findOne (\<lambda>d. uid d = i) s"

text \<open>
  \<^verbatim>\<open>user.save()\<close> on a document that was loaded from the collection: the stored
  document with the same \<^verbatim>\<open>_id\<close> takes the in-memory document's fields. (Mongoose
  writes the modified paths only; for a request served alone the other paths
  are as stored. No route deletes a document, so the stored one is always there.)
\<close>

definition save :: "user \<Rightarrow> store \<Rightarrow> store" where
  "save u s = map (\<lambda>d. if uid d = uid u then u else d) s"

section \<open>Requests and responses\<close>

text \<open>
  The two headers \<^verbatim>\<open>authMiddleware\<close> reads; \<open>None\<close> is an absent header
  (\<^verbatim>\<open>req.header\<close> returns \<^verbatim>\<open>undefined\<close>).
\<close>

record request =
  x_api_key :: "string option"
  authorization :: "string option"

text \<open>
  What a handler sends: \<^verbatim>\<open>res.status(n).json({ error: msg })\<close> is \<open>ErrorJson n msg\<close>;
  the other constructors are the success bodies of the routes modelled below.
\<close>

datatype response =
    ErrorJson nat string
  | AuthJson string "string option" string plan
  | ApiKeyJson string
  | OkJson

text \<open>
  JavaScript truthiness of a value that is a string or \<^verbatim>\<open>undefined\<close>, whatever the
  characters of the string are.
\<close>

fun truthy :: "'a list option \<Rightarrow> bool" where
  "truthy None = False"
| "truthy (Some s) = (s \<noteq> [])"

text \<open>The claims of a verified token: \<^verbatim>\<open>{ id, email }\<close>, as \<^verbatim>\<open>jwt.sign\<close> is called.\<close>

record jwt_payload =
  payload_id :: nat
  payload_email :: string

section \<open>authMiddleware\<close>

text \<open>
  \<^verbatim>\<open>jwt.verify(token, JWT_SECRET)\<close> is the parameter \<open>jwt_verify\<close>: \<open>None\<close> when it throws
  (bad signature, expired, malformed). The \<^verbatim>\<open>catch\<close> turns a throw into
  \<^verbatim>\<open>401 { error: 'Auth error' }\<close>. \<open>Inr user\<close> is \<^verbatim>\<open>req.user = user; return next()\<close>.
\<close>

definition authMiddleware ::
  "(string \<Rightarrow> jwt_payload option) \<Rightarrow> request \<Rightarrow> store \<Rightarrow> (response + user) \<times> store" where
  "authMiddleware jwt_verify req s =
     (if truthy (x_api_key req) then
        (case findOne (\<lambda>d. apiKey d = x_api_key req) s of
           (None, s1) \<Rightarrow> (Inl (ErrorJson 401 ''Invalid API key''), s1)
         | (Some u, s1) \<Rightarrow> (Inr u, s1))
      else
        (case authorization req of
           None \<Rightarrow> (Inl (ErrorJson 401 ''No credentials''), s)
         | Some auth \<Rightarrow>
             if take 7 auth = ''Bearer '' then
               (case jwt_verify (drop 7 auth) of
                  None \<Rightarrow> (Inl (ErrorJson 401 ''Auth error''), s)
                | Some payload \<Rightarrow>
                    (case findById (payload_id payload) s of
                       (None, s1) \<Rightarrow> (Inl (ErrorJson 401 ''Invalid token''), s1)
                     | (Some u, s1) \<Rightarrow> (Inr u, s1)))
             else (Inl (ErrorJson 401 ''No credentials''), s)))"

section \<open>JavaScript strings and numbers\<close>

text \<open>
  Where the code looks at single characters (\<^verbatim>\<open>parseInt\<close>, \<^verbatim>\<open>trim\<close>, \<^verbatim>\<open>split\<close>,
  \<^verbatim>\<open>includes\<close>) a string is what JavaScript has: a list of UTF-16 code units.
  \<open>utf16\<close> gives the code units of an ASCII literal.
\<close>

type_synonym js_string = "int list"

definition unit_of :: "char \<Rightarrow> int" where
  "unit_of c = of_char c"

definition utf16 :: "string \<Rightarrow> js_string" where
  "utf16 s = map unit_of s"

text \<open>
  White space as \<^verbatim>\<open>parseInt\<close> and \<^verbatim>\<open>trim\<close> skip it, the WhiteSpace and LineTerminator
  of ECMAScript: TAB, LF, VT, FF, CR, the space, U+00A0, U+1680, U+2000 to
  U+200A, U+2028, U+2029, U+202F, U+205F, U+3000 and U+FEFF.
\<close>

definition is_space :: "int \<Rightarrow> bool" where
  "is_space c =
     (c \<in> {9, 10, 11, 12, 13, 32, 160, 5760, 8232, 8233, 8239, 8287, 12288, 65279}
      \<or> (8192 \<le> c \<and> c \<le> 8202))"

definition is_digit :: "int \<Rightarrow> bool" where
  "is_digit c = (48 \<le> c \<and> c \<le> 57)"

definition digits_value :: "js_string \<Rightarrow> int" where
  "digits_value z = foldl (\<lambda>n c. 10 * n + (c - 48)) 0 z"

text \<open>
  A JavaScript number that is an integer is an \<open>int\<close> here: the value of the
  double. \<open>to_double\<close> rounds an integer to the nearest double, as every
  arithmetic operation and \<^verbatim>\<open>parseInt\<close> do: below \<open>2^53\<close> (9007199254740992)
  nothing changes, above it 53 significant bits are kept (ties to the even
  one). A value of \<open>2^1024\<close> or more, which no double has, stands for
  \<^verbatim>\<open>Infinity\<close>; \<open>js_le\<close> is \<^verbatim>\<open><=\<close> on such numbers, for which two infinities of one
  sign are equal. (ECMAScript lets \<^verbatim>\<open>parseInt\<close> ignore the digits after the 20th;
  the model rounds the exact value, as V8 does.)
\<close>

function bit_len :: "int \<Rightarrow> nat" where
  "bit_len n = (if n \<le> 0 then 0 else Suc (bit_len (n div 2)))"
  by pat_completeness auto
termination
  by (relation "measure nat") auto

declare bit_len.simps [simp del]

definition to_double :: "int \<Rightarrow> int" where
  "to_double n =
     (let m = \<bar>n\<bar> in
      if m < 9007199254740992 then n
      else
        (let e = bit_len m - 53;
             q = m div 2 ^ e;
             r = m mod 2 ^ e;
             q1 = (if 2 ^ (e - 1) < r \<or> (r = 2 ^ (e - 1) \<and> odd q) then q + 1 else q)
         in sgn n * (q1 * 2 ^ e)))"

definition is_infinite :: "int \<Rightarrow> bool" where
  "is_infinite n = (1024 < bit_len \<bar>n\<bar>)"

definition js_le :: "int \<Rightarrow> int \<Rightarrow> bool" where
  "js_le x y = (x \<le> y \<or> (is_infinite x \<and> is_infinite y \<and> sgn x = sgn y))"

text \<open>
  \<^verbatim>\<open>parseInt(s, 10)\<close>: leading white space is skipped, one sign is read, then the
  longest run of decimal digits; with no digit the result is \<^verbatim>\<open>NaN\<close>, here \<open>None\<close>.
  What follows the digits is ignored.
\<close>

definition parseInt :: "js_string \<Rightarrow> int option" where
  "parseInt s =
     (let t = dropWhile is_space s;
          sign = (if take 1 t = utf16 ''-'' then - 1 else 1);
          r = (if take 1 t = utf16 ''-'' \<or> take 1 t = utf16 ''+'' then drop 1 t else t);
          z = takeWhile is_digit r
      in if z = [] then None else Some (to_double (sign * digits_value z)))"

text \<open>\<^verbatim>\<open>s.trim()\<close>.\<close>

definition trim :: "js_string \<Rightarrow> js_string" where
  "trim s = rev (dropWhile is_space (rev (dropWhile is_space s)))"

text \<open>
  \<^verbatim>\<open>s.split(c)\<close> for a one-character separator: the pieces between the separators,
  empty pieces kept, so that the empty string splits into one empty piece.
\<close>

fun split_on :: "'a \<Rightarrow> 'a list \<Rightarrow> 'a list list" where
  "split_on c [] = [[]]"
| "split_on c (x # xs) =
     (if x = c then [] # split_on c xs
      else (case split_on c xs of [] \<Rightarrow> [[x]] | p # ps \<Rightarrow> (x # p) # ps))"

section \<open>enforceLimit\<close>

text \<open>
  \<^verbatim>\<open>FREE_LIMIT = parseInt(process.env.FREE_PLAN_LIMIT || '20', 10)\<close> is a JavaScript
  number: \<open>None\<close> is \<^verbatim>\<open>NaN\<close>, against which every comparison is false. The argument
  is the environment variable, \<open>None\<close> when it is not set.
\<close>

definition FREE_LIMIT :: "js_string option \<Rightarrow> int option" where
  "FREE_LIMIT env =
     parseInt (case env of None \<Rightarrow> utf16 ''20'' | Some v \<Rightarrow> if v = [] then utf16 ''20'' else v)"

fun js_ge :: "int \<Rightarrow> int option \<Rightarrow> bool" where
  "js_ge c None = False"
| "js_ge c (Some l) = (l \<le> c)"

text \<open>The test of line 82: \<^verbatim>\<open>!user.dailyReset || (now - user.dailyReset) > 24*3600*1000\<close>.\<close>

definition window_expired :: "user \<Rightarrow> int \<Rightarrow> bool" where
  "window_expired u now =
     (case dailyReset u of None \<Rightarrow> True | Some r \<Rightarrow> now - r > 24 * 3600 * 1000)"

text \<open>Lines 82 to 86: the window rollover, on the in-memory document and the store.\<close>

definition rollover :: "user \<Rightarrow> int \<Rightarrow> store \<Rightarrow> user \<times> store" where
  "rollover u now s =
     (if window_expired u now then
        (let u1 = u\<lparr>dailyCount := 0, dailyReset := Some now\<rparr> in (u1, save u1 s))
      else (u, s))"

text \<open>
  Line 87: \<^verbatim>\<open>user.plan === 'premium' ? 1000000 : FREE_LIMIT\<close>. The value of the
  constant is the argument \<open>free_limit\<close> here and below.
\<close>

definition plan_limit :: "int option \<Rightarrow> user \<Rightarrow> int option" where
  "plan_limit free_limit u = (if plan u = Premium then Some 1000000 else free_limit)"

text \<open>
  The whole middleware. \<open>Inl\<close> is the 429 response, \<open>Inr ()\<close> is \<^verbatim>\<open>next()\<close>; the in-memory
  document and the store are returned as the middleware leaves them.
\<close>

definition enforceLimit ::
  "int option \<Rightarrow> user \<Rightarrow> int \<Rightarrow> store \<Rightarrow> (response + unit) \<times> user \<times> store" where
  "enforceLimit free_limit u now s =
     (case rollover u now s of (u1, s1) \<Rightarrow>
        (let limit = plan_limit free_limit u1 in
         if js_ge (dailyCount u1) limit then
           (Inl (ErrorJson 429 ''Daily API limit reached''), u1, s1)
         else
           (let u2 = u1\<lparr>dailyCount := dailyCount u1 + 1\<rparr> in (Inr (), u2, save u2 s1))))"

text \<open>A protected route up to its handler: \<^verbatim>\<open>authMiddleware, enforceLimit\<close>.\<close>

definition protected ::
  "(string \<Rightarrow> jwt_payload option) \<Rightarrow> int option \<Rightarrow> request \<Rightarrow> int \<Rightarrow> store
     \<Rightarrow> (response + unit) \<times> store" where
  "protected jwt_verify free_limit req now s =
     (case authMiddleware jwt_verify req s of
        (Inl e, s1) \<Rightarrow> (Inl e, s1)
      | (Inr u, s1) \<Rightarrow> (case enforceLimit free_limit u now s1 of (r, u', s2) \<Rightarrow> (r, s2)))"

text \<open>The same request sent again and again, one after the other, at the given times.\<close>

fun run_requests ::
  "(string \<Rightarrow> jwt_payload option) \<Rightarrow> int option \<Rightarrow> request \<Rightarrow> int list \<Rightarrow> store
     \<Rightarrow> (response + unit) list \<times> store" where
  "run_requests jwt_verify free_limit req [] s = ([], s)"
| "run_requests jwt_verify free_limit req (t # ts) s =
     (case protected jwt_verify free_limit req t s of (r, s1) \<Rightarrow>
        (case run_requests jwt_verify free_limit req ts s1 of (rs, s2) \<Rightarrow> (r # rs, s2)))"

text \<open>The count the limit check sees: the stored one, or 0 after a rollover.\<close>

definition window_count :: "user \<Rightarrow> int \<Rightarrow> int" where
  "window_count u now = (if window_expired u now then 0 else dailyCount u)"

section \<open>The credential routes\<close>

text \<open>\<^verbatim>\<open>genApiKey\<close>: \<^verbatim>\<open>'pk_' + uuidv4().replace(/-/g,'')\<close>; the argument is the UUID drawn.\<close>

definition genApiKey :: "string \<Rightarrow> string" where
  "genApiKey uuid = ''pk_'' @ filter (\<lambda>c. c \<noteq> CHR ''-'') uuid"

text \<open>
  The JSON body of signup and login: each field is a string or absent.
\<close>

record auth_body =
  body_email :: "string option"
  body_password :: "string option"
  body_plan :: "string option"

text \<open>
  \<^verbatim>\<open>user.save()\<close> on a new document: MongoDB refuses it (E11000) when the \<^verbatim>\<open>_id\<close>, the
  unique \<^verbatim>\<open>email\<close> index or the unique sparse \<^verbatim>\<open>apiKey\<close> index already holds the value.
\<close>

definition insert_user :: "user \<Rightarrow> store \<Rightarrow> store option" where
  "insert_user u s =
     (if \<exists>d\<in>set s. uid d = uid u \<or> email d = email u \<or> (apiKey u \<noteq> None \<and> apiKey d = apiKey u)
      then None else Some (s @ [u]))"

text \<open>
  \<^verbatim>\<open>POST /api/auth/signup\<close>. \<^verbatim>\<open>bcrypt.hash\<close> and \<^verbatim>\<open>jwt.sign\<close> are parameters; \<open>uuid\<close> is
  the UUID drawn by \<^verbatim>\<open>genApiKey\<close>, \<open>new_id\<close> the \<^verbatim>\<open>_id\<close> given to the new document and
  \<open>now\<close> the time of the schema defaults. A refused insert throws and the \<^verbatim>\<open>catch\<close>
  answers 500.
\<close>

definition api_auth_signup ::
  "(string \<Rightarrow> string) \<Rightarrow> (jwt_payload \<Rightarrow> string) \<Rightarrow> string \<Rightarrow> nat \<Rightarrow> int \<Rightarrow> auth_body \<Rightarrow> store
     \<Rightarrow> response \<times> store" where
  "api_auth_signup bcrypt_hash jwt_sign uuid new_id now body s =
     (case (body_email body, body_password body) of
        (Some em, Some password) \<Rightarrow>
          if em = [] \<or> password = [] then (ErrorJson 400 ''email & password required'', s)
          else
            (case findOne (\<lambda>d. email d = em) s of
               (Some existing, s1) \<Rightarrow> (ErrorJson 400 ''Email exists'', s1)
             | (None, s1) \<Rightarrow>
                 (let hash = bcrypt_hash password;
                      key = genApiKey uuid;
                      u = \<lparr>uid = new_id, email = em, passwordHash = hash, apiKey = Some key,
                           plan = (if body_plan body = Some ''premium'' then Premium else Free),
                           createdAt = now, dailyCount = 0, dailyReset = Some now\<rparr>
                  in case insert_user u s1 of
                       None \<Rightarrow> (ErrorJson 500 ''Signup failed'', s1)
                     | Some s2 \<Rightarrow>
                         (AuthJson (jwt_sign \<lparr>payload_id = uid u, payload_email = email u\<rparr>)
                            (Some key) (email u) (plan u), s2)))
      | _ \<Rightarrow> (ErrorJson 400 ''email & password required'', s))"

text \<open>
  \<^verbatim>\<open>POST /api/auth/login\<close>. \<^verbatim>\<open>bcrypt.compare\<close> is a parameter on strings; called with an
  absent password it rejects, and the \<^verbatim>\<open>catch\<close> answers 500.
\<close>

definition api_auth_login ::
  "(string \<Rightarrow> string \<Rightarrow> bool) \<Rightarrow> (jwt_payload \<Rightarrow> string) \<Rightarrow> auth_body \<Rightarrow> store
     \<Rightarrow> response \<times> store" where
  "api_auth_login bcrypt_compare jwt_sign body s =
     (case findOne (\<lambda>d. Some (email d) = body_email body) s of
        (None, s1) \<Rightarrow> (ErrorJson 400 ''Invalid credentials'', s1)
      | (Some u, s1) \<Rightarrow>
          (case body_password body of
             None \<Rightarrow> (ErrorJson 500 ''Login failed'', s1)
           | Some password \<Rightarrow>
               if \<not> bcrypt_compare password (passwordHash u)
               then (ErrorJson 400 ''Invalid credentials'', s1)
               else (AuthJson (jwt_sign \<lparr>payload_id = uid u, payload_email = email u\<rparr>)
                       (apiKey u) (email u) (plan u), s1)))"

text \<open>
  \<^verbatim>\<open>POST /api/auth/regenerate\<close>, behind \<^verbatim>\<open>authMiddleware\<close>. The save changes the indexed
  \<^verbatim>\<open>apiKey\<close>: when another document holds the new key MongoDB refuses it, the save
  throws and the \<^verbatim>\<open>catch\<close> answers 500.
\<close>

definition api_auth_regenerate ::
  "(string \<Rightarrow> jwt_payload option) \<Rightarrow> string \<Rightarrow> request \<Rightarrow> store \<Rightarrow> response \<times> store" where
  "api_auth_regenerate jwt_verify uuid req s =
     (case authMiddleware jwt_verify req s of
        (Inl e, s1) \<Rightarrow> (e, s1)
      | (Inr u, s1) \<Rightarrow>
          (let u1 = u\<lparr>apiKey := Some (genApiKey uuid)\<rparr> in
           if \<exists>d\<in>set s1. uid d \<noteq> uid u1 \<and> apiKey d = apiKey u1
           then (ErrorJson 500 ''Regenerate failed'', s1)
           else (ApiKeyJson (genApiKey uuid), save u1 s1)))"

text \<open>\<^verbatim>\<open>POST /api/admin/promote\<close>.\<close>

definition api_admin_promote :: "string option \<Rightarrow> store \<Rightarrow> response \<times> store" where
  "api_admin_promote em s =
     (case findOne (\<lambda>d. Some (email d) = em) s of
        (None, s1) \<Rightarrow> (ErrorJson 404 ''No user'', s1)
      | (Some u, s1) \<Rightarrow> (OkJson, save (u\<lparr>plan := Premium\<rparr>) s1))"

text \<open>
  The failure kinds of the error taxonomy, as the responses name them in their
  \<^verbatim>\<open>error\<close> text. \<^verbatim>\<open>'Auth error'\<close>, the answer of the \<^verbatim>\<open>catch\<close> of \<^verbatim>\<open>authMiddleware\<close>, names
  none of them.
\<close>

datatype error_kind =
    InvalidInput | DuplicateAccount | InvalidCredentials | MissingCredentials
  | InvalidApiKey | InvalidToken | AccountNotFound | QuotaExceeded | OperationFailed

definition error_kind_of :: "response \<Rightarrow> error_kind option" where
  "error_kind_of r =
     (case r of
        ErrorJson st msg \<Rightarrow>
          if msg = ''email & password required'' then Some InvalidInput
          else if msg = ''Email exists'' then Some DuplicateAccount
          else if msg = ''Invalid credentials'' then Some InvalidCredentials
          else if msg = ''No credentials'' then Some MissingCredentials
          else if msg = ''Invalid API key'' then Some InvalidApiKey
          else if msg = ''Invalid token'' then Some InvalidToken
          else if msg = ''No user'' then Some AccountNotFound
          else if msg = ''Daily API limit reached'' then Some QuotaExceeded
          else if st = 500 then Some OperationFailed
          else None
      | _ \<Rightarrow> None)"

section \<open>The split route\<close>

text \<open>
  The handler of \<^verbatim>\<open>POST /api/split\<close>, after \<^verbatim>\<open>authMiddleware\<close>, \<^verbatim>\<open>enforceLimit\<close> and the
  upload. A document is the list of its pages. \<open>req_file\<close> is the uploaded file
  (\<open>None\<close>: no file), \<open>body_pages\<close> and \<open>query_pages\<close> are \<^verbatim>\<open>req.body.pages\<close> and
  \<^verbatim>\<open>req.query.pages\<close>, each a string or absent.
\<close>

record 'f split_request =
  req_file :: "'f option"
  body_pages :: "js_string option"
  query_pages :: "js_string option"

text \<open>
  \<^verbatim>\<open>pagesToKeep.push(x)\<close>. A JavaScript array holds at most \<open>2^32 - 1\<close> elements; the
  push that would go beyond throws a RangeError (\<open>None\<close>), which the \<^verbatim>\<open>catch\<close> of line
  188 answers with 500. (A process with less memory than such an array needs is
  stopped before that; in neither case is a PDF sent.)
\<close>

definition js_array_max :: int where
  "js_array_max = 4294967295"

definition push :: "'a list \<Rightarrow> 'a \<Rightarrow> 'a list option" where
  "push xs x = (if int (length xs) < js_array_max then Some (xs @ [x]) else None)"

text \<open>
  Line 174: \<^verbatim>\<open>for(let i=a;i<=b;i++) pagesToKeep.push(i-1)\<close>. Entries of \<open>pagesToKeep\<close>
  are JavaScript numbers, \<open>None\<close> being \<^verbatim>\<open>NaN\<close>. \<^verbatim>\<open>i++\<close> and \<^verbatim>\<open>i-1\<close> are operations on
  doubles: from \<open>2^53\<close> on \<^verbatim>\<open>i++\<close> no longer moves \<^verbatim>\<open>i\<close>, and the loop only ends when
  the array is full.
\<close>

function range_loop :: "int \<Rightarrow> int \<Rightarrow> int option list \<Rightarrow> int option list option" where
  "range_loop i b pagesToKeep =
     (if js_le i b then
        (case push pagesToKeep (Some (to_double (i - 1))) of
           None \<Rightarrow> None
         | Some pagesToKeep1 \<Rightarrow> range_loop (to_double (i + 1)) b pagesToKeep1)
      else Some pagesToKeep)"
  by pat_completeness auto
termination
  by (relation "measure (\<lambda>(i, b, pagesToKeep). nat (js_array_max - int (length pagesToKeep)))")
     (auto simp: push_def split: if_splits)

declare range_loop.simps [simp del]

text \<open>
  The callback of \<^verbatim>\<open>parts.forEach\<close> (lines 171 to 178). With \<^verbatim>\<open>NaN\<close> for \<^verbatim>\<open>a\<close> or \<^verbatim>\<open>b\<close> the
  test \<^verbatim>\<open>i<=b\<close> is false at once and the loop pushes nothing.
\<close>

definition push_part :: "int option list \<Rightarrow> js_string \<Rightarrow> int option list option" where
  "push_part pagesToKeep p =
     (if unit_of CHR ''-'' \<in> set p then
        (case map (\<lambda>x. parseInt (trim x)) (split_on (unit_of CHR ''-'') p) of
           Some a # Some b # rest \<Rightarrow> range_loop a b pagesToKeep
         | _ \<Rightarrow> Some pagesToKeep)
      else push pagesToKeep (map_option (\<lambda>n. to_double (n - 1)) (parseInt (trim p))))"

text \<open>\<^verbatim>\<open>parts.forEach\<close>: part after part, until one throws.\<close>

fun for_each_part :: "int option list \<Rightarrow> js_string list \<Rightarrow> int option list option" where
  "for_each_part pagesToKeep [] = Some pagesToKeep"
| "for_each_part pagesToKeep (p # parts) =
     (case push_part pagesToKeep p of
        None \<Rightarrow> None
      | Some pagesToKeep1 \<Rightarrow> for_each_part pagesToKeep1 parts)"

text \<open>Lines 165 to 179; \<open>None\<close> when the loop throws.\<close>

definition pages_to_keep :: "js_string option \<Rightarrow> int option list option" where
  "pages_to_keep pagesQuery =
     (case pagesQuery of
        None \<Rightarrow> Some [Some 0]
      | Some q \<Rightarrow>
          if q = [] then Some [Some 0]
          else for_each_part [] (split_on (unit_of CHR '','') q))"

text \<open>\<^verbatim>\<open>pagesToKeep.filter(i=>i>=0&&i<total)\<close>; both comparisons are false on \<^verbatim>\<open>NaN\<close>.\<close>

definition in_range_indices :: "nat \<Rightarrow> int option list \<Rightarrow> int list" where
  "in_range_indices total_pages pagesToKeep =
     concat (map (\<lambda>x. case x of None \<Rightarrow> []
                        | Some i \<Rightarrow> if 0 \<le> i \<and> i < int total_pages then [i] else []) pagesToKeep)"

text \<open>
  \<^verbatim>\<open>outPdf.copyPages(pdf, indices)\<close> of pdf-lib, the page-range engine of the
  specification: the pages at the given 0-based indices, in that order. It is
  only defined on indices of the document; on any other index the model fails
  (\<open>None\<close>), and the handler's \<^verbatim>\<open>catch\<close> would answer 500.
\<close>

definition copyPages :: "'p list \<Rightarrow> int list \<Rightarrow> 'p list option" where
  "copyPages pdf indices =
     (if \<forall>i\<in>set indices. 0 \<le> i \<and> i < int (length pdf)
      then Some (map (\<lambda>i. pdf ! nat i) indices) else None)"

text \<open>
  \<^verbatim>\<open>outPdf.save()\<close> of pdf-lib (line 183), called with its defaults, of which
  \<^verbatim>\<open>addDefaultPage\<close> is true: a document that has no page is given one blank
  page before it is written. \<open>blank\<close> is that page.
\<close>

definition PDFDocument_save :: "'p \<Rightarrow> 'p list \<Rightarrow> 'p list" where
  "PDFDocument_save blank pages = (if pages = [] then [blank] else pages)"

text \<open>
  The handler. \<open>load\<close> is \<^verbatim>\<open>PDFDocument.load\<close> on the file's bytes (\<open>None\<close>: it throws).
  \<open>Inr pages\<close> is the PDF sent: the pages of what \<^verbatim>\<open>outPdf.save()\<close> wrote.
\<close>

definition api_split ::
  "('f \<Rightarrow> 'p list option) \<Rightarrow> 'p \<Rightarrow> 'f split_request \<Rightarrow> response + 'p list" where
  "api_split load blank req =
     (case req_file req of
        None \<Rightarrow> Inl (ErrorJson 400 ''no file'')
      | Some f \<Rightarrow>
          (let pagesQuery = (if truthy (body_pages req) then body_pages req else query_pages req) in
           case load f of
             None \<Rightarrow> Inl (ErrorJson 500 ''Split failed'')
           | Some pdf \<Rightarrow>
               (let total_pages = length pdf in
                case pages_to_keep pagesQuery of
                  None \<Rightarrow> Inl (ErrorJson 500 ''Split failed'')
                | Some pagesToKeep \<Rightarrow>
                    (case copyPages pdf (in_range_indices total_pages pagesToKeep) of
                       None \<Rightarrow> Inl (ErrorJson 500 ''Split failed'')
                     | Some copied \<Rightarrow> Inr (PDFDocument_save blank copied)))))"

section \<open>Requests in flight together\<close>

text \<open>
  Node runs a request until its next \<^verbatim>\<open>await\<close>; there another request may run. For
  an API-key request on a protected route the awaits are the query of
  \<^verbatim>\<open>authMiddleware\<close> (line 60) and the two saves of \<^verbatim>\<open>enforceLimit\<close> (lines 85 and 90).
  A task is a request between two awaits, holding its own in-memory document:
  \<open>Arrived\<close> before the query (with the time \<^verbatim>\<open>new Date()\<close> will give), \<open>SavingRollover\<close>
  at line 85, \<open>SavingCount\<close> at line 90, \<open>Finished\<close> with \<open>Inl\<close> a response or \<open>Inr ()\<close> for
  \<^verbatim>\<open>next()\<close>.
\<close>

datatype task =
    Arrived request int
  | SavingRollover user
  | SavingCount user
  | Finished "response + unit"

text \<open>Lines 87 to 89, on the in-memory document: reject, or increment and go to the save.\<close>

definition limit_check :: "int option \<Rightarrow> user \<Rightarrow> task" where
  "limit_check free_limit u1 =
     (if js_ge (dailyCount u1) (plan_limit free_limit u1)
      then Finished (Inl (ErrorJson 429 ''Daily API limit reached''))
      else SavingCount (u1\<lparr>dailyCount := dailyCount u1 + 1\<rparr>))"

text \<open>One task runs from its await to the next one.\<close>

fun task_step ::
  "(string \<Rightarrow> jwt_payload option) \<Rightarrow> int option \<Rightarrow> task \<Rightarrow> store \<Rightarrow> task \<times> store" where
  "task_step jwt_verify free_limit (Arrived req now) s =
     (case authMiddleware jwt_verify req s of
        (Inl e, s1) \<Rightarrow> (Finished (Inl e), s1)
      | (Inr u, s1) \<Rightarrow>
          if window_expired u now
          then (SavingRollover (u\<lparr>dailyCount := 0, dailyReset := Some now\<rparr>), s1)
          else (limit_check free_limit u, s1))"
| "task_step jwt_verify free_limit (SavingRollover u1) s = (limit_check free_limit u1, save u1 s)"
| "task_step jwt_verify free_limit (SavingCount u2) s = (Finished (Inr ()), save u2 s)"
| "task_step jwt_verify free_limit (Finished r) s = (Finished r, s)"

text \<open>A schedule names, step by step, the task that runs next.\<close>

fun interleave ::
  "(string \<Rightarrow> jwt_payload option) \<Rightarrow> int option \<Rightarrow> nat list \<Rightarrow> task list \<Rightarrow> store
     \<Rightarrow> task list \<times> store" where
  "interleave jwt_verify free_limit [] tasks s = (tasks, s)"
| "interleave jwt_verify free_limit (i # schedule) tasks s =
     (if i < length tasks then
        (case task_step jwt_verify free_limit (tasks ! i) s of
           (t, s1) \<Rightarrow> interleave jwt_verify free_limit schedule (tasks[i := t]) s1)
      else interleave jwt_verify free_limit schedule tasks s)"

section \<open>Histories of the store\<close>

text \<open>The requests that can write to the collection, with what each one draws.\<close>

datatype op =
    Signup string nat int auth_body
  | Regenerate string request
  | Protected request int
  | Promote "string option"

fun apply_op ::
  "(string \<Rightarrow> jwt_payload option) \<Rightarrow> (jwt_payload \<Rightarrow> string) \<Rightarrow> (string \<Rightarrow> string) \<Rightarrow> int option
     \<Rightarrow> op \<Rightarrow> store \<Rightarrow> store" where
  "apply_op jwt_verify jwt_sign bcrypt_hash free_limit (Signup uuid new_id now body) s =
     snd (api_auth_signup bcrypt_hash jwt_sign uuid new_id now body s)"
| "apply_op jwt_verify jwt_sign bcrypt_hash free_limit (Regenerate uuid req) s =
     snd (api_auth_regenerate jwt_verify uuid req s)"
| "apply_op jwt_verify jwt_sign bcrypt_hash free_limit (Protected req now) s =
     snd (protected jwt_verify free_limit req now s)"
| "apply_op jwt_verify jwt_sign bcrypt_hash free_limit (Promote em) s =
     snd (api_admin_promote em s)"

text \<open>A history: the requests served one after the other.\<close>

fun run_ops ::
  "(string \<Rightarrow> jwt_payload option) \<Rightarrow> (jwt_payload \<Rightarrow> string) \<Rightarrow> (string \<Rightarrow> string) \<Rightarrow> int option
     \<Rightarrow> op list \<Rightarrow> store \<Rightarrow> store" where
  "run_ops jwt_verify jwt_sign bcrypt_hash free_limit [] s = s"
| "run_ops jwt_verify jwt_sign bcrypt_hash free_limit (x # xs) s =
     run_ops jwt_verify jwt_sign bcrypt_hash free_limit xs
       (apply_op jwt_verify jwt_sign bcrypt_hash free_limit x s)"

text \<open>The UUIDs a history draws for new keys, request by request and all together.\<close>

fun op_uuids :: "op \<Rightarrow> string list" where
  "op_uuids (Signup uuid new_id now body) = [uuid]"
| "op_uuids (Regenerate uuid req) = [uuid]"
| "op_uuids (Protected req now) = []"
| "op_uuids (Promote em) = []"

definition draws :: "op list \<Rightarrow> string list" where
  "draws xs = concat (map op_uuids xs)"

text \<open>
  What \<^verbatim>\<open>uuidv4()\<close> returns: 36 characters, hyphens at the positions 8, 13, 18 and
  23, lower-case hexadecimal digits everywhere else.
\<close>

definition is_hex :: "char \<Rightarrow> bool" where
  "is_hex c = (c \<in> set ''0123456789abcdef'')"

definition uuid_hyphens :: "bool list" where
  "uuid_hyphens =
     replicate 8 False @ [True] @ replicate 4 False @ [True] @ replicate 4 False @ [True]
       @ replicate 4 False @ [True] @ replicate 12 False"

definition is_uuid :: "string \<Rightarrow> bool" where
  "is_uuid u =
     (map (\<lambda>c. c = CHR ''-'') u = uuid_hyphens \<and> (\<forall>c\<in>set u. c = CHR ''-'' \<or> is_hex c))"

section \<open>Invariants of the collection\<close>

text \<open>
  What MongoDB keeps true of the collection: \<^verbatim>\<open>_id\<close> is unique, and so are \<^verbatim>\<open>email\<close>
  and, where present, \<^verbatim>\<open>apiKey\<close> (the schema's unique indexes).
\<close>

definition present_keys :: "store \<Rightarrow> string list" where
  "present_keys s = concat (map (\<lambda>d. case apiKey d of None \<Rightarrow> [] | Some k \<Rightarrow> [k]) s)"

definition wf_store :: "store \<Rightarrow> bool" where
  "wf_store s = (distinct (map uid s) \<and> distinct (map email s) \<and> distinct (present_keys s))"

section \<open>Examples\<close>

text \<open>An account, a request by key, and stand-ins for the library functions.\<close>

definition alice :: user where
  "alice = \<lparr>uid = 1, email = ''alice@example.org'', passwordHash = ''h1'',
            apiKey = Some ''pk_a'', plan = Free, createdAt = 0, dailyCount = 0,
            dailyReset = Some 0\<rparr>"

definition by_key :: "string \<Rightarrow> request" where
  "by_key k = \<lparr>x_api_key = Some k, authorization = None\<rparr>"

definition by_token :: "string \<Rightarrow> request" where
  "by_token tok = \<lparr>x_api_key = None, authorization = Some (''Bearer '' @ tok)\<rparr>"

definition no_token :: "string \<Rightarrow> jwt_payload option" where
  "no_token tok = None"

definition token_of :: "nat \<Rightarrow> string \<Rightarrow> jwt_payload option" where
  "token_of i tok = Some \<lparr>payload_id = i, payload_email = ''alice@example.org''\<rparr>"

definition demo_hash :: "string \<Rightarrow> string" where
  "demo_hash password = ''h'' @ password"

definition demo_compare :: "string \<Rightarrow> string \<Rightarrow> bool" where
  "demo_compare password hash = (hash = demo_hash password)"

definition demo_sign :: "jwt_payload \<Rightarrow> string" where
  "demo_sign payload = ''tok''"

definition credentials :: "string \<Rightarrow> string option \<Rightarrow> auth_body" where
  "credentials em password = \<lparr>body_email = Some em, body_password = password, body_plan = None\<rparr>"

definition uuid_a :: string where
  "uuid_a = ''11111111-2222-4333-8444-555555555555''"

definition uuid_b :: string where
  "uuid_b = ''66666666-7777-4888-9999-aaaaaaaaaaaa''"

definition uuid_c :: string where
  "uuid_c = ''bbbbbbbb-cccc-4ddd-8eee-ffffffffffff''"

definition upload :: "string \<Rightarrow> string split_request" where
  "upload pages = \<lparr>req_file = Some ''abcde'', body_pages = Some (utf16 pages), query_pages = None\<rparr>"

section \<open>Lemmas on the store and the middlewares\<close>

lemma find_save:
  "find P s = Some u \<Longrightarrow> P u' \<Longrightarrow> uid u' = uid u \<Longrightarrow> find P (save u' s) = Some u'"
  by (induction s) (auto simp: save_def split: if_splits)

lemma find_holds: "find P s = Some u \<Longrightarrow> P u \<and> u \<in> set s"
  by (induction s) (auto split: if_splits)

lemma FREE_LIMIT_default: "FREE_LIMIT None = Some 20"
  by code_simp

lemma enforceLimit_cases:
  "enforceLimit F u now s =
     (if js_ge (window_count u now) (plan_limit F u)
      then (Inl (ErrorJson 429 ''Daily API limit reached''), fst (rollover u now s), snd (rollover u now s))
      else (Inr (), (fst (rollover u now s))\<lparr>dailyCount := window_count u now + 1\<rparr>,
            save ((fst (rollover u now s))\<lparr>dailyCount := window_count u now + 1\<rparr>) (snd (rollover u now s))))"
  by (simp add: enforceLimit_def rollover_def window_count_def plan_limit_def Let_def)

lemma auth_by_key:
  "k \<noteq> [] \<Longrightarrow> find (\<lambda>d. apiKey d = Some k) s = Some a \<Longrightarrow>
   authMiddleware jv \<lparr>x_api_key = Some k, authorization = h\<rparr> s = (Inr a, s)"
  by (simp add: authMiddleware_def findOne_def)

lemma protected_in_window:
  assumes "k \<noteq> []" "find (\<lambda>d. apiKey d = Some k) s = Some a" "plan a = Free"
    "dailyReset a = Some t0" "t - t0 \<le> 86400000"
  shows "protected jv (Some L) \<lparr>x_api_key = Some k, authorization = h\<rparr> t s =
     (if L \<le> dailyCount a then (Inl (ErrorJson 429 ''Daily API limit reached''), s)
      else (Inr (), save (a\<lparr>dailyCount := dailyCount a + 1\<rparr>) s))"
  using assms
  by (simp add: protected_def auth_by_key enforceLimit_cases rollover_def window_expired_def
      window_count_def plan_limit_def)

lemma fst_run_Cons:
  "fst (run_requests jv F req (t # ts) s) =
     fst (protected jv F req t s) # fst (run_requests jv F req ts (snd (protected jv F req t s)))"
  by (simp split: prod.splits)

text \<open>
  Requests of one free account inside one window: they are admitted until the
  count reaches the limit, and rejected from then on.
\<close>

lemma run_in_window:
  assumes "k \<noteq> []" "find (\<lambda>d. apiKey d = Some k) s = Some a" "plan a = Free"
    "dailyReset a = Some t0" "\<forall>t\<in>set ts. t - t0 \<le> 86400000"
  shows "fst (run_requests jv (Some L) \<lparr>x_api_key = Some k, authorization = h\<rparr> ts s) =
     replicate (min (length ts) (nat (L - dailyCount a))) (Inr ()) @
     replicate (length ts - nat (L - dailyCount a)) (Inl (ErrorJson 429 ''Daily API limit reached''))"
  using assms
proof (induction ts arbitrary: s a)
  case Nil
  then show ?case by simp
next
  case (Cons t ts)
  let ?req = "\<lparr>x_api_key = Some k, authorization = h\<rparr>"
  have p: "protected jv (Some L) ?req t s =
     (if L \<le> dailyCount a then (Inl (ErrorJson 429 ''Daily API limit reached''), s)
      else (Inr (), save (a\<lparr>dailyCount := dailyCount a + 1\<rparr>) s))"
    using Cons.prems by (intro protected_in_window) auto
  show ?case
  proof (cases "L \<le> dailyCount a")
    case True
    have "fst (run_requests jv (Some L) ?req ts s) =
       replicate (min (length ts) (nat (L - dailyCount a))) (Inr ()) @
       replicate (length ts - nat (L - dailyCount a)) (Inl (ErrorJson 429 ''Daily API limit reached''))"
      using Cons.prems by (intro Cons.IH) auto
    with True p show ?thesis by (simp only: fst_run_Cons) simp
  next
    case False
    let ?a = "a\<lparr>dailyCount := dailyCount a + 1\<rparr>"
    have f: "find (\<lambda>d. apiKey d = Some k) (save ?a s) = Some ?a"
      using Cons.prems by (intro find_save) (auto dest: find_holds)
    have "fst (run_requests jv (Some L) ?req ts (save ?a s)) =
       replicate (min (length ts) (nat (L - dailyCount ?a))) (Inr ()) @
       replicate (length ts - nat (L - dailyCount ?a)) (Inl (ErrorJson 429 ''Daily API limit reached''))"
      using Cons.prems f by (intro Cons.IH) auto
    moreover have "nat (L - dailyCount a) = Suc (nat (L - dailyCount ?a))"
      using False by simp
    ultimately show ?thesis using False p by (simp only: fst_run_Cons) simp
  qed
qed

section \<open>The quota ledger\<close>

text \<open>
  Claim C1. Whatever the account, the time and the store: when the count of the
  current window (0 after a rollover) has reached the limit of the plan,
  \<open>enforceLimit\<close> answers 429 \<open>Daily API limit reached\<close> (the kind QuotaExceeded)
  and leaves document and store as the rollover step left them; otherwise it
  calls \<open>next()\<close> with the count one higher, and saves that document. The limit is
  1000000 for premium and the configured one, 20 by default, otherwise. And for
  a free account at count 0, with limit \<open>N\<close>, \<open>N + 1\<close> requests inside the window
  are answered by \<open>N\<close> admissions and then one rejection.
\<close>

theorem enforceLimit_admits_below_limit:
  "(case enforceLimit F u now s of
      (r, u', s') \<Rightarrow>
        if js_ge (window_count u now) (plan_limit F u)
        then r = Inl (ErrorJson 429 ''Daily API limit reached'')
           \<and> error_kind_of (ErrorJson 429 ''Daily API limit reached'') = Some QuotaExceeded
           \<and> dailyCount u' = window_count u now \<and> (u', s') = rollover u now s
        else r = Inr () \<and> dailyCount u' = window_count u now + 1
           \<and> s' = save u' (snd (rollover u now s)))
   \<and> plan_limit (FREE_LIMIT None) u = (if plan u = Premium then Some 1000000 else Some 20)
   \<and> (k \<noteq> [] \<and> find (\<lambda>d. apiKey d = Some k) s = Some a \<and> plan a = Free \<and> dailyCount a = 0
        \<and> dailyReset a = Some t0 \<and> (\<forall>t\<in>set ts. t - t0 \<le> 24 * 3600 * 1000) \<and> length ts = N + 1
      \<longrightarrow> fst (run_requests jv (Some (int N)) \<lparr>x_api_key = Some k, authorization = h\<rparr> ts s) =
            replicate N (Inr ()) @ [Inl (ErrorJson 429 ''Daily API limit reached'')])"
proof -
  have A: "(case enforceLimit F u now s of
      (r, u', s') \<Rightarrow>
        if js_ge (window_count u now) (plan_limit F u)
        then r = Inl (ErrorJson 429 ''Daily API limit reached'')
           \<and> error_kind_of (ErrorJson 429 ''Daily API limit reached'') = Some QuotaExceeded
           \<and> dailyCount u' = window_count u now \<and> (u', s') = rollover u now s
        else r = Inr () \<and> dailyCount u' = window_count u now + 1
           \<and> s' = save u' (snd (rollover u now s)))"
    by (simp add: enforceLimit_cases error_kind_of_def)
       (simp add: rollover_def window_count_def Let_def)
  have B: "plan_limit (FREE_LIMIT None) u = (if plan u = Premium then Some 1000000 else Some 20)"
    by (simp add: plan_limit_def FREE_LIMIT_default)
  have C: "fst (run_requests jv (Some (int N)) \<lparr>x_api_key = Some k, authorization = h\<rparr> ts s) =
            replicate N (Inr ()) @ [Inl (ErrorJson 429 ''Daily API limit reached'')]"
    if "k \<noteq> []" "find (\<lambda>d. apiKey d = Some k) s = Some a" "plan a = Free" "dailyCount a = 0"
       "dailyReset a = Some t0" "\<forall>t\<in>set ts. t - t0 \<le> 24 * 3600 * 1000" "length ts = N + 1"
    using run_in_window[of k s a t0 ts jv "int N" h] that by simp
  from A B C show ?thesis by blast
qed

theorem enforceLimit_admits_below_limit_witness:
  "find (\<lambda>d. apiKey d = Some ''pk_a'') [alice] = Some alice \<and> plan alice = Free
   \<and> dailyCount alice = 0 \<and> dailyReset alice = Some 0
   \<and> fst (run_requests no_token (Some 2) (by_key ''pk_a'') [1, 2, 3] [alice]) =
       [Inr (), Inr (), Inl (ErrorJson 429 ''Daily API limit reached'')]"
proof -
  have h: "''pk_a'' \<noteq> [] \<and> find (\<lambda>d. apiKey d = Some ''pk_a'') [alice] = Some alice
      \<and> plan alice = Free \<and> dailyCount alice = 0 \<and> dailyReset alice = Some 0
      \<and> (\<forall>t\<in>set [1, 2, 3 :: int]. t - 0 \<le> 24 * 3600 * 1000) \<and> length [1, 2, 3 :: int] = 2 + 1"
    by (simp add: alice_def)
  have "fst (run_requests no_token (Some (int 2)) \<lparr>x_api_key = Some ''pk_a'', authorization = None\<rparr>
          [1, 2, 3] [alice]) = replicate 2 (Inr ()) @ [Inl (ErrorJson 429 ''Daily API limit reached'')]"
    using enforceLimit_admits_below_limit[where k = "''pk_a''" and a = alice and s = "[alice]"
        and ?t0.0 = 0 and ts = "[1, 2, 3]" and N = 2 and jv = no_token and h = None] h
    by blast
  then show ?thesis
    using h by (simp add: by_key_def numeral_2_eq_2)
qed

text \<open>
  Claim C2. For an account whose window started at \<open>r\<close> and a request at time
  \<open>now\<close>: when more than 24 hours have passed, the rollover step sets the count
  to 0 and the start of the window to \<open>now\<close>, in the document and in the store,
  whatever the count was, and the limit check then decides as it would for that
  reset document; when 24 hours or less have passed, the step changes neither
  the document nor the store.
\<close>

theorem rollover_after_24h:
  "dailyReset u = Some r \<Longrightarrow>
     (now - r > 24 * 3600 * 1000 \<longrightarrow>
        rollover u now s =
          (u\<lparr>dailyCount := 0, dailyReset := Some now\<rparr>,
           save (u\<lparr>dailyCount := 0, dailyReset := Some now\<rparr>) s)
        \<and> window_count u now = 0
        \<and> enforceLimit F u now s =
            (if js_ge 0 (plan_limit F u)
             then (Inl (ErrorJson 429 ''Daily API limit reached''),
                   u\<lparr>dailyCount := 0, dailyReset := Some now\<rparr>,
                   save (u\<lparr>dailyCount := 0, dailyReset := Some now\<rparr>) s)
             else (Inr (), u\<lparr>dailyCount := 0, dailyReset := Some now\<rparr>\<lparr>dailyCount := 1\<rparr>,
                   save (u\<lparr>dailyCount := 0, dailyReset := Some now\<rparr>\<lparr>dailyCount := 1\<rparr>)
                     (save (u\<lparr>dailyCount := 0, dailyReset := Some now\<rparr>) s))))
   \<and> (now - r \<le> 24 * 3600 * 1000 \<longrightarrow>
        rollover u now s = (u, s) \<and> window_count u now = dailyCount u)"
  by (simp add: enforceLimit_cases rollover_def window_count_def window_expired_def Let_def
      plan_limit_def)

theorem rollover_after_24h_witness:
  "dailyReset (alice\<lparr>dailyCount := 7\<rparr>) = Some 0
   \<and> rollover (alice\<lparr>dailyCount := 7\<rparr>) 86400001 [alice\<lparr>dailyCount := 7\<rparr>] =
       (alice\<lparr>dailyCount := 0, dailyReset := Some 86400001\<rparr>,
        [alice\<lparr>dailyCount := 0, dailyReset := Some 86400001\<rparr>])
   \<and> rollover (alice\<lparr>dailyCount := 7\<rparr>) 86400000 [alice\<lparr>dailyCount := 7\<rparr>] =
       (alice\<lparr>dailyCount := 7\<rparr>, [alice\<lparr>dailyCount := 7\<rparr>])"
proof -
  have r: "dailyReset (alice\<lparr>dailyCount := 7\<rparr>) = Some 0"
    by (simp add: alice_def)
  have late: "(86400001 :: int) - 0 > 24 * 3600 * 1000" and
    early: "(86400000 :: int) - 0 \<le> 24 * 3600 * 1000"
    by simp_all
  from rollover_after_24h[OF r, of 86400001 "[alice\<lparr>dailyCount := 7\<rparr>]"] late
  have a: "rollover (alice\<lparr>dailyCount := 7\<rparr>) 86400001 [alice\<lparr>dailyCount := 7\<rparr>] =
      (alice\<lparr>dailyCount := 7\<rparr>\<lparr>dailyCount := 0, dailyReset := Some 86400001\<rparr>,
       save (alice\<lparr>dailyCount := 7\<rparr>\<lparr>dailyCount := 0, dailyReset := Some 86400001\<rparr>)
         [alice\<lparr>dailyCount := 7\<rparr>])"
    by blast
  from rollover_after_24h[OF r, of 86400000 "[alice\<lparr>dailyCount := 7\<rparr>]"] early
  have b: "rollover (alice\<lparr>dailyCount := 7\<rparr>) 86400000 [alice\<lparr>dailyCount := 7\<rparr>] =
      (alice\<lparr>dailyCount := 7\<rparr>, [alice\<lparr>dailyCount := 7\<rparr>])"
    by blast
  from r a b show ?thesis
    by (simp add: save_def)
qed

section \<open>The identity resolver\<close>

lemma auth_bearer:
  assumes "\<not> truthy (x_api_key req)" "authorization req = Some (''Bearer '' @ tok)"
  shows "authMiddleware jv req s =
     (case jv tok of
        None \<Rightarrow> (Inl (ErrorJson 401 ''Auth error''), s)
      | Some p \<Rightarrow>
          (case find (\<lambda>d. uid d = payload_id p) s of
             None \<Rightarrow> (Inl (ErrorJson 401 ''Invalid token''), s)
           | Some u \<Rightarrow> (Inr u, s)))"
  using assms
  by (simp add: authMiddleware_def findById_def findOne_def split: option.splits)

text \<open>
  Claim C4, as the code has it. A request with no API key and the header
  \<open>Bearer tok\<close>: when \<open>jwt.verify\<close> throws (bad signature, expired) the answer is
  401 \<open>Auth error\<close>, which names no kind of the taxonomy; when the token verifies
  and no account has its id the answer is 401 \<open>Invalid token\<close>, the kind
  InvalidToken; when an account has the id, that account is handed on.
\<close>

theorem bearer_resolution:
  "\<not> truthy (x_api_key req) \<Longrightarrow> authorization req = Some (''Bearer '' @ tok) \<Longrightarrow>
     (jv tok = None \<longrightarrow>
        authMiddleware jv req s = (Inl (ErrorJson 401 ''Auth error''), s)
        \<and> error_kind_of (ErrorJson 401 ''Auth error'') = None)
   \<and> (jv tok = Some p \<and> find (\<lambda>d. uid d = payload_id p) s = None \<longrightarrow>
        authMiddleware jv req s = (Inl (ErrorJson 401 ''Invalid token''), s)
        \<and> error_kind_of (ErrorJson 401 ''Invalid token'') = Some InvalidToken)
   \<and> (jv tok = Some p \<and> find (\<lambda>d. uid d = payload_id p) s = Some u \<longrightarrow>
        authMiddleware jv req s = (Inr u, s) \<and> uid u = payload_id p \<and> u \<in> set s)"
  by (auto simp: auth_bearer error_kind_of_def dest: find_holds)

theorem bearer_resolution_witness:
  "authMiddleware no_token (by_token ''t1'') [alice] = (Inl (ErrorJson 401 ''Auth error''), [alice])
   \<and> authMiddleware (token_of 7) (by_token ''t1'') [alice] =
       (Inl (ErrorJson 401 ''Invalid token''), [alice])
   \<and> authMiddleware (token_of 1) (by_token ''t1'') [alice] = (Inr alice, [alice])"
proof -
  define p7 where "p7 = \<lparr>payload_id = 7, payload_email = ''alice@example.org''\<rparr>"
  define p1 where "p1 = \<lparr>payload_id = 1, payload_email = ''alice@example.org''\<rparr>"
  have h: "\<not> truthy (x_api_key (by_token ''t1''))"
    "authorization (by_token ''t1'') = Some (''Bearer '' @ ''t1'')"
    by (simp_all add: by_token_def)
  have v: "no_token ''t1'' = None" "token_of 7 ''t1'' = Some p7" "token_of 1 ''t1'' = Some p1"
    by (simp_all add: no_token_def token_of_def p7_def p1_def)
  have f7: "find (\<lambda>d. uid d = payload_id p7) [alice] = None"
    and f1: "find (\<lambda>d. uid d = payload_id p1) [alice] = Some alice"
    by (simp_all add: alice_def p7_def p1_def)
  have a: "authMiddleware no_token (by_token ''t1'') [alice] =
      (Inl (ErrorJson 401 ''Auth error''), [alice])"
    using bearer_resolution[OF h, where jv = no_token and s = "[alice]"] v(1) by blast
  have b: "authMiddleware (token_of 7) (by_token ''t1'') [alice] =
      (Inl (ErrorJson 401 ''Invalid token''), [alice])"
    using bearer_resolution[OF h, where jv = "token_of 7" and s = "[alice]" and p = p7] v(2) f7
    by blast
  have c: "authMiddleware (token_of 1) (by_token ''t1'') [alice] = (Inr alice, [alice])"
    using bearer_resolution[OF h, where jv = "token_of 1" and s = "[alice]" and p = p1 and u = alice]
      v(3) f1
    by blast
  from a b c show ?thesis by blast
qed

text \<open>
  Claim C4 as stated fails on the code: a token that verifies for an account
  that is gone is answered by \<open>Invalid token\<close>, not by the kind AccountNotFound,
  and a token that does not verify is answered by \<open>Auth error\<close>, not by the text
  of InvalidToken.
\<close>

theorem bearer_resolution_counterexample:
  "fst (authMiddleware (token_of 7) (by_token ''t1'') [alice]) = Inl (ErrorJson 401 ''Invalid token'')
   \<and> map uid [alice] = [1]
   \<and> error_kind_of (ErrorJson 401 ''Invalid token'') \<noteq> Some AccountNotFound
   \<and> fst (authMiddleware no_token (by_token ''t1'') [alice]) = Inl (ErrorJson 401 ''Auth error'')
   \<and> error_kind_of (ErrorJson 401 ''Auth error'') \<noteq> Some InvalidToken"
  by (simp add: authMiddleware_def findById_def findOne_def alice_def error_kind_of_def
      by_token_def token_of_def no_token_def)

text \<open>
  Claim C8. Identity resolution only queries the collection: whatever the
  request and whatever the outcome, the store after \<open>authMiddleware\<close> is the store
  before it, every account with every field.
\<close>

theorem authMiddleware_read_only:
  "snd (authMiddleware jv req s) = s"
  by (simp add: authMiddleware_def findById_def findOne_def split: option.splits)

section \<open>The credential issuer\<close>

text \<open>
  With a password in the request, a login fails in the same way, with 400
  \<open>Invalid credentials\<close>, when no account has the email and when an account has
  it and \<open>bcrypt.compare\<close> says the password does not match.
\<close>

lemma login_failures_with_password:
  "(find (\<lambda>d. Some (email d) = body_email ba) sa = None
      \<and> find (\<lambda>d. Some (email d) = body_email bb) sb = Some u
      \<and> body_password bb = Some pw \<and> \<not> bc pw (passwordHash u)
    \<longrightarrow> api_auth_login bc js ba sa = (ErrorJson 400 ''Invalid credentials'', sa)
      \<and> api_auth_login bc js bb sb = (ErrorJson 400 ''Invalid credentials'', sb)
      \<and> fst (api_auth_login bc js ba sa) = fst (api_auth_login bc js bb sb))
   \<and> error_kind_of (ErrorJson 400 ''Invalid credentials'') = Some InvalidCredentials"
  by (simp add: api_auth_login_def findOne_def error_kind_of_def)

text \<open>
  Claim C7, on the code. A login request that carries no password fails for a
  known email and for an unknown one, but not in the same way: for the email of
  a stored account \<open>bcrypt.compare\<close> is called without a password and throws, and
  the \<open>catch\<close> answers 500 \<open>Login failed\<close>; for an unknown email the answer is 400
  \<open>Invalid credentials\<close>. The two responses differ, so the response tells whether
  the email has an account. The signup route tests \<open>!password\<close> first (line 98);
  the login route has no such test.
\<close>

theorem login_without_password_reveals_account:
  "api_auth_login demo_compare demo_sign (credentials ''alice@example.org'' None) [alice] =
     (ErrorJson 500 ''Login failed'', [alice])
   \<and> api_auth_login demo_compare demo_sign (credentials ''bob@example.org'' None) [alice] =
     (ErrorJson 400 ''Invalid credentials'', [alice])
   \<and> error_kind_of (ErrorJson 500 ''Login failed'') = Some OperationFailed
   \<and> error_kind_of (ErrorJson 400 ''Invalid credentials'') = Some InvalidCredentials"
  by (simp add: api_auth_login_def findOne_def credentials_def alice_def error_kind_of_def)

text \<open>
  Claim C6, as the code has it. A signup whose email is that of a stored
  account never changes the store: no account is altered and none is created.
  It is answered by 400 \<open>Email exists\<close> (the kind DuplicateAccount) when email and
  password are both non-empty, and by 400 \<open>email & password required\<close> (the kind
  InvalidInput) when the password is missing or empty, since that test comes
  first.
\<close>

theorem signup_existing_email:
  "body_email body = Some em \<Longrightarrow> find (\<lambda>d. email d = em) s = Some existing \<Longrightarrow>
     api_auth_signup bh js uuid new_id now body s =
       (if em \<noteq> [] \<and> truthy (body_password body) then ErrorJson 400 ''Email exists''
        else ErrorJson 400 ''email & password required'', s)
     \<and> error_kind_of (ErrorJson 400 ''Email exists'') = Some DuplicateAccount
     \<and> error_kind_of (ErrorJson 400 ''email & password required'') = Some InvalidInput"
  by (cases "body_password body") (simp_all add: api_auth_signup_def findOne_def error_kind_of_def)

theorem signup_existing_email_witness:
  "email alice = ''alice@example.org''
   \<and> api_auth_signup demo_hash demo_sign ''u-2'' 2 5
       (credentials ''alice@example.org'' (Some ''pw'')) [alice] =
     (ErrorJson 400 ''Email exists'', [alice])"
proof -
  define body where "body = credentials ''alice@example.org'' (Some ''pw'')"
  have e: "body_email body = Some ''alice@example.org''" and pw: "truthy (body_password body)"
    by (simp_all add: body_def credentials_def)
  have f: "find (\<lambda>d. email d = ''alice@example.org'') [alice] = Some alice"
    by (simp add: alice_def)
  have "api_auth_signup demo_hash demo_sign ''u-2'' 2 5 body [alice] =
      (ErrorJson 400 ''Email exists'', [alice])"
    using signup_existing_email[OF e f, where bh = demo_hash and js = demo_sign
        and uuid = "''u-2''" and new_id = 2 and now = 5] pw
    by simp
  then show ?thesis unfolding body_def by (simp add: alice_def)
qed

text \<open>
  Claim C6 as stated fails on the code: a signup with the email of a stored
  account and no password is answered by \<open>email & password required\<close>, the kind
  InvalidInput, not by DuplicateAccount.
\<close>

theorem signup_existing_email_counterexample:
  "api_auth_signup demo_hash demo_sign ''u-2'' 2 5 (credentials ''alice@example.org'' None) [alice] =
     (ErrorJson 400 ''email & password required'', [alice])
   \<and> email alice = ''alice@example.org''
   \<and> error_kind_of (ErrorJson 400 ''email & password required'') \<noteq> Some DuplicateAccount"
  by (simp add: api_auth_signup_def alice_def error_kind_of_def credentials_def)

subsection \<open>Key rotation\<close>

lemma auth_key_absent:
  "k \<noteq> [] \<Longrightarrow> \<forall>d\<in>set s. apiKey d \<noteq> Some k \<Longrightarrow>
   authMiddleware jv \<lparr>x_api_key = Some k, authorization = h\<rparr> s =
     (Inl (ErrorJson 401 ''Invalid API key''), s)"
  by (simp add: authMiddleware_def findOne_def find_None_iff[THEN iffD2])

lemma auth_store_unchanged: "authMiddleware jv req s = (r, s1) \<Longrightarrow> s1 = s"
  by (auto simp: authMiddleware_def findById_def findOne_def split: option.splits if_splits)

lemma auth_Inr_in_store:
  "authMiddleware jv req s = (Inr u, s') \<Longrightarrow> u \<in> set s \<and> s' = s"
  by (auto simp: authMiddleware_def findOne_def findById_def
      split: if_splits option.splits dest: find_holds)

lemma key_absent_save:
  "apiKey u \<noteq> Some k \<Longrightarrow> \<forall>d\<in>set s. apiKey d \<noteq> Some k \<Longrightarrow>
   \<forall>d\<in>set (save u s). apiKey d \<noteq> Some k"
  by (auto simp: save_def)

lemma key_absent_enforceLimit:
  assumes "apiKey u \<noteq> Some k" "\<forall>d\<in>set s. apiKey d \<noteq> Some k"
  shows "\<forall>d\<in>set (snd (snd (enforceLimit F u now s))). apiKey d \<noteq> Some k"
proof -
  have r: "apiKey (fst (rollover u now s)) \<noteq> Some k
      \<and> (\<forall>d\<in>set (snd (rollover u now s)). apiKey d \<noteq> Some k)"
    using assms key_absent_save[of "u\<lparr>dailyCount := 0, dailyReset := Some now\<rparr>" k s]
    by (simp add: rollover_def Let_def)
  show ?thesis
    using r key_absent_save[of "(fst (rollover u now s))\<lparr>dailyCount := window_count u now + 1\<rparr>" k
        "snd (rollover u now s)"]
    by (simp add: enforceLimit_cases)
qed

lemma key_absent_protected:
  assumes "\<forall>d\<in>set s. apiKey d \<noteq> Some k"
  shows "\<forall>d\<in>set (snd (protected jv F req now s)). apiKey d \<noteq> Some k"
proof (cases "authMiddleware jv req s")
  case (Pair r s1)
  show ?thesis
  proof (cases r)
    case (Inl e)
    with Pair assms auth_store_unchanged[OF Pair] show ?thesis
      by (simp add: protected_def)
  next
    case (Inr u)
    with Pair have "u \<in> set s" "s1 = s"
      using auth_Inr_in_store by blast+
    with assms have "\<forall>d\<in>set (snd (snd (enforceLimit F u now s1))). apiKey d \<noteq> Some k"
      by (intro key_absent_enforceLimit) auto
    with Pair Inr show ?thesis
      by (simp add: protected_def split: prod.splits)
  qed
qed

lemma key_absent_signup:
  assumes "\<forall>d\<in>set s. apiKey d \<noteq> Some k" "genApiKey uuid \<noteq> k"
  shows "\<forall>d\<in>set (snd (api_auth_signup bh js uuid new_id now body s)). apiKey d \<noteq> Some k"
  using assms
  by (auto simp: api_auth_signup_def findOne_def insert_user_def Let_def
      split: option.splits if_splits)

lemma key_absent_regenerate:
  assumes "\<forall>d\<in>set s. apiKey d \<noteq> Some k" "genApiKey uuid \<noteq> k"
  shows "\<forall>d\<in>set (snd (api_auth_regenerate jv uuid req s)). apiKey d \<noteq> Some k"
proof (cases "authMiddleware jv req s")
  case (Pair r s1)
  show ?thesis
  proof (cases r)
    case (Inl e)
    with Pair assms auth_store_unchanged[OF Pair] show ?thesis
      by (simp add: api_auth_regenerate_def)
  next
    case (Inr u)
    with Pair have "s1 = s"
      using auth_Inr_in_store by blast
    moreover have "\<forall>d\<in>set (save (u\<lparr>apiKey := Some (genApiKey uuid)\<rparr>) s). apiKey d \<noteq> Some k"
      using assms by (intro key_absent_save) auto
    ultimately show ?thesis
      using Pair Inr assms(1) by (simp add: api_auth_regenerate_def Let_def)
  qed
qed

lemma key_absent_promote:
  assumes "\<forall>d\<in>set s. apiKey d \<noteq> Some k"
  shows "\<forall>d\<in>set (snd (api_admin_promote em s)). apiKey d \<noteq> Some k"
proof (cases "find (\<lambda>d. Some (email d) = em) s")
  case None
  then have "snd (api_admin_promote em s) = s"
    by (simp add: api_admin_promote_def findOne_def)
  with assms show ?thesis by (simp only:)
next
  case (Some u)
  then have eq: "snd (api_admin_promote em s) = save (u\<lparr>plan := Premium\<rparr>) s"
    by (simp add: api_admin_promote_def findOne_def)
  have "u \<in> set s"
    using find_holds[OF Some] by (rule conjunct2)
  with assms have "apiKey u \<noteq> Some k"
    by (rule bspec)
  then have "\<forall>d\<in>set (save (u\<lparr>plan := Premium\<rparr>) s). apiKey d \<noteq> Some k"
    using assms by (intro key_absent_save) auto
  with eq show ?thesis by (simp only:)
qed

lemma key_absent_apply_op:
  assumes "\<forall>d\<in>set s. apiKey d \<noteq> Some k" "k \<notin> genApiKey ` set (op_uuids x)"
  shows "\<forall>d\<in>set (apply_op jv js bh F x s). apiKey d \<noteq> Some k"
proof (cases x)
  case (Signup uuid new_id now body)
  with assms key_absent_signup[of s k uuid bh js new_id now body] show ?thesis by simp
next
  case (Regenerate uuid req)
  with assms key_absent_regenerate[of s k uuid jv req] show ?thesis by simp
next
  case (Protected req now)
  with assms key_absent_protected[of s k jv F req now] show ?thesis by simp
next
  case (Promote em)
  with assms key_absent_promote[of s k em] show ?thesis by simp
qed

lemma key_absent_run_ops:
  assumes "\<forall>d\<in>set s. apiKey d \<noteq> Some k" "k \<notin> genApiKey ` set (concat (map op_uuids xs))"
  shows "\<forall>d\<in>set (run_ops jv js bh F xs s). apiKey d \<noteq> Some k"
  using assms
proof (induction xs arbitrary: s)
  case Nil
  then show ?case by simp
next
  case (Cons x xs)
  have "\<forall>d\<in>set (apply_op jv js bh F x s). apiKey d \<noteq> Some k"
    using Cons.prems by (intro key_absent_apply_op) auto
  then have "\<forall>d\<in>set (run_ops jv js bh F xs (apply_op jv js bh F x s)). apiKey d \<noteq> Some k"
    using Cons.prems by (intro Cons.IH) auto
  then show ?case by simp
qed

lemma present_keys_mem:
  "d \<in> set s \<Longrightarrow> apiKey d = Some k \<Longrightarrow> k \<in> set (present_keys s)"
  by (induction s) (auto simp: present_keys_def)

lemma unique_key_owner:
  "distinct (present_keys s) \<Longrightarrow> d \<in> set s \<Longrightarrow> u \<in> set s \<Longrightarrow>
   apiKey d = Some k \<Longrightarrow> apiKey u = Some k \<Longrightarrow> d = u"
proof (induction s)
  case Nil
  then show ?case by simp
next
  case (Cons x s)
  have tl: "distinct (present_keys s)"
    using Cons.prems(1) by (simp add: present_keys_def)
  have nx: "apiKey x = Some k \<Longrightarrow> k \<notin> set (present_keys s)"
    using Cons.prems(1) by (simp add: present_keys_def)
  show ?case
  proof (cases "d = x")
    case True
    show ?thesis
    proof (cases "u = x")
      case True
      with \<open>d = x\<close> show ?thesis by simp
    next
      case False
      with Cons.prems have "u \<in> set s" by simp
      with Cons.prems have "k \<in> set (present_keys s)" using present_keys_mem by blast
      with nx True Cons.prems show ?thesis by blast
    qed
  next
    case False
    with Cons.prems have ds: "d \<in> set s" by simp
    show ?thesis
    proof (cases "u = x")
      case True
      from ds Cons.prems have "k \<in> set (present_keys s)" using present_keys_mem by blast
      with nx True Cons.prems show ?thesis by blast
    next
      case False
      with Cons.prems have "u \<in> set s" by simp
      with ds tl Cons.prems Cons.IH show ?thesis by blast
    qed
  qed
qed

lemma find_after_save:
  "u \<in> set s \<Longrightarrow> uid u' = uid u \<Longrightarrow> P u' \<Longrightarrow> \<forall>d\<in>set s. uid d \<noteq> uid u' \<longrightarrow> \<not> P d \<Longrightarrow>
   find P (save u' s) = Some u'"
  by (induction s) (auto simp: save_def)

lemma save_mem: "d \<in> set (save u s) \<Longrightarrow> d = u \<or> (d \<in> set s \<and> uid d \<noteq> uid u)"
  by (auto simp: save_def split: if_splits)

lemma genApiKey_nonempty: "genApiKey uuid \<noteq> []"
  by (simp add: genApiKey_def)

lemma present_keys_iff: "k \<in> set (present_keys s) \<longleftrightarrow> (\<exists>d\<in>set s. apiKey d = Some k)"
  by (induction s) (auto simp: present_keys_def split: option.splits)

text \<open>Different UUIDs give different keys.\<close>

lemma same_hyphens_same_rest:
  "map (\<lambda>c. c = h) x = map (\<lambda>c. c = h) y \<Longrightarrow> filter (\<lambda>c. c \<noteq> h) x = filter (\<lambda>c. c \<noteq> h) y \<Longrightarrow>
   x = y"
proof (induction x arbitrary: y)
  case Nil
  then show ?case by simp
next
  case (Cons a x)
  then obtain b y' where y: "y = b # y'"
    by (cases y) auto
  with Cons.prems have m: "(a = h) = (b = h)" "map (\<lambda>c. c = h) x = map (\<lambda>c. c = h) y'"
    by simp_all
  have "a = b \<and> filter (\<lambda>c. c \<noteq> h) x = filter (\<lambda>c. c \<noteq> h) y'"
    using Cons.prems(2) m(1) unfolding y by (cases "a = h") auto
  with Cons.IH[OF m(2)] y show ?case by simp
qed

lemma genApiKey_inj: "is_uuid x \<Longrightarrow> is_uuid y \<Longrightarrow> genApiKey x = genApiKey y \<Longrightarrow> x = y"
  by (rule same_hyphens_same_rest[of "CHR ''-''"]) (simp_all add: is_uuid_def genApiKey_def)

subsection \<open>The unique indexes along a history\<close>

lemma save_map_same:
  assumes "distinct (map uid s)" "u \<in> set s" "uid u' = uid u" "f u' = f u"
  shows "map f (save u' s) = map f s"
proof -
  have inj: "inj_on uid (set s)"
    using assms(1) by (simp add: distinct_map)
  have "f (if uid d = uid u' then u' else d) = f d" if "d \<in> set s" for d
  proof (cases "uid d = uid u'")
    case True
    with assms(3) have e: "uid d = uid u" by simp
    from inj e that assms(2) have "d = u" by (rule inj_onD)
    with True assms(4) show ?thesis by simp
  next
    case False
    then show ?thesis by simp
  qed
  then show ?thesis by (simp add: save_def)
qed

lemma mem_save: "u \<in> set s \<Longrightarrow> uid u' = uid u \<Longrightarrow> u' \<in> set (save u' s)"
  by (induction s) (auto simp: save_def)

lemma wf_save_same:
  assumes "wf_store s" "u \<in> set s" "uid u' = uid u" "email u' = email u" "apiKey u' = apiKey u"
  shows "wf_store (save u' s)"
proof -
  have d: "distinct (map uid s)"
    using assms(1) by (simp add: wf_store_def)
  have "map uid (save u' s) = map uid s" "map email (save u' s) = map email s"
    using d assms(2,3,4) by (simp_all add: save_map_same)
  moreover have "present_keys (save u' s) = present_keys s"
    unfolding present_keys_def using d assms(2,3,5) by (subst save_map_same) simp_all
  ultimately show ?thesis
    using assms(1) by (simp add: wf_store_def)
qed

lemma wf_enforceLimit:
  assumes "wf_store s" "u \<in> set s"
  shows "wf_store (snd (snd (enforceLimit F u now s)))"
proof -
  let ?u1 = "fst (rollover u now s)" and ?s1 = "snd (rollover u now s)"
  let ?u0 = "u\<lparr>dailyCount := 0, dailyReset := Some now\<rparr>"
  have r: "wf_store ?s1 \<and> ?u1 \<in> set ?s1"
  proof (cases "window_expired u now")
    case True
    have "wf_store (save ?u0 s)" "?u0 \<in> set (save ?u0 s)"
      using assms by (auto intro: wf_save_same mem_save)
    with True show ?thesis by (simp add: rollover_def Let_def)
  next
    case False
    with assms show ?thesis by (simp add: rollover_def)
  qed
  then have "wf_store (save (?u1\<lparr>dailyCount := window_count u now + 1\<rparr>) ?s1)"
    by (intro wf_save_same[of ?s1 ?u1]) auto
  with r show ?thesis by (simp add: enforceLimit_cases)
qed

lemma wf_protected:
  assumes "wf_store s"
  shows "wf_store (snd (protected jv F req now s))"
proof (cases "authMiddleware jv req s")
  case (Pair r s1)
  note eq = auth_store_unchanged[OF Pair]
  show ?thesis
  proof (cases r)
    case (Inl e)
    with Pair eq assms show ?thesis by (simp add: protected_def)
  next
    case (Inr u)
    with Pair have "u \<in> set s"
      using auth_Inr_in_store by blast
    with assms have w: "wf_store (snd (snd (enforceLimit F u now s)))"
      by (rule wf_enforceLimit)
    obtain r' u' s2 where e: "enforceLimit F u now s = (r', u', s2)"
      by (cases "enforceLimit F u now s") auto
    with w have "wf_store s2" by simp
    with Pair Inr eq e show ?thesis
      by (simp add: protected_def)
  qed
qed

lemma wf_promote:
  assumes "wf_store s"
  shows "wf_store (snd (api_admin_promote em s))"
proof (cases "find (\<lambda>d. Some (email d) = em) s")
  case None
  then have "snd (api_admin_promote em s) = s"
    by (simp add: api_admin_promote_def findOne_def)
  with assms show ?thesis by (simp only:)
next
  case (Some u)
  then have eq: "snd (api_admin_promote em s) = save (u\<lparr>plan := Premium\<rparr>) s"
    by (simp add: api_admin_promote_def findOne_def)
  have "u \<in> set s"
    using find_holds[OF Some] by (rule conjunct2)
  with assms have "wf_store (save (u\<lparr>plan := Premium\<rparr>) s)"
    by (rule wf_save_same) simp_all
  with eq show ?thesis by (simp only:)
qed

lemma wf_signup:
  assumes "wf_store s"
  shows "wf_store (snd (api_auth_signup bh js uuid new_id now body s))"
proof -
  have ins: "wf_store s'" if "insert_user u s = Some s'" "apiKey u = Some k" for u s' k
  proof -
    from that(1) have s': "s' = s @ [u]"
      and fresh: "\<forall>d\<in>set s. uid d \<noteq> uid u \<and> email d \<noteq> email u \<and> apiKey d \<noteq> apiKey u"
      using that(2) by (auto simp: insert_user_def split: if_splits)
    have "k \<notin> set (present_keys s)"
      using fresh that(2) by (auto simp: present_keys_iff)
    moreover have "present_keys s' = present_keys s @ [k]"
      using that(2) by (simp add: s' present_keys_def)
    ultimately show ?thesis
      using assms fresh by (auto simp: wf_store_def s')
  qed
  show ?thesis
    using assms ins
    by (auto simp: api_auth_signup_def findOne_def Let_def split: option.splits if_splits)
qed

lemma save_absent: "\<forall>d\<in>set s. uid d \<noteq> uid u \<Longrightarrow> save u s = s"
  by (induction s) (auto simp: save_def)

lemma keys_save_subset:
  assumes "apiKey u = Some k"
  shows "set (present_keys (save u s)) \<subseteq> insert k (set (present_keys s))"
proof
  fix j assume "j \<in> set (present_keys (save u s))"
  then obtain d where d: "d \<in> set (save u s)" "apiKey d = Some j"
    by (auto simp: present_keys_iff)
  from save_mem[OF d(1)] show "j \<in> insert k (set (present_keys s))"
  proof
    assume "d = u"
    with d(2) assms show ?thesis by simp
  next
    assume "d \<in> set s \<and> uid d \<noteq> uid u"
    with d(2) show ?thesis by (auto simp: present_keys_iff)
  qed
qed

lemma distinct_keys_save_new:
  assumes "distinct (map uid s)" "distinct (present_keys s)"
    "\<forall>d\<in>set s. uid d \<noteq> uid u \<longrightarrow> apiKey d \<noteq> Some k" "apiKey u = Some k"
  shows "distinct (present_keys (save u s))"
  using assms(1,2,3)
proof (induction s)
  case Nil
  then show ?case by (simp add: save_def present_keys_def)
next
  case (Cons x s)
  have tl: "distinct (map uid s)" "distinct (present_keys s)"
    "\<forall>d\<in>set s. uid d \<noteq> uid u \<longrightarrow> apiKey d \<noteq> Some k"
    using Cons.prems by (simp_all add: present_keys_def)
  show ?case
  proof (cases "uid x = uid u")
    case True
    with Cons.prems(1) have "\<forall>d\<in>set s. uid d \<noteq> uid u" by (auto simp: image_iff)
    then have same: "save u s = s" and "k \<notin> set (present_keys s)"
      using tl(3) by (auto simp: save_absent present_keys_iff)
    then show ?thesis
      using True tl(2) assms(4) by (simp add: save_def present_keys_def)
  next
    case False
    have ih: "distinct (present_keys (save u s))"
      using tl by (rule Cons.IH)
    have "set (present_keys (save u s)) \<subseteq> insert k (set (present_keys s))"
      using assms(4) by (rule keys_save_subset)
    moreover have "apiKey x \<noteq> Some k"
      using Cons.prems(3) False by simp
    moreover have "\<forall>j. apiKey x = Some j \<longrightarrow> j \<notin> set (present_keys s)"
      using Cons.prems(2) by (auto simp: present_keys_def)
    ultimately have "\<forall>j. apiKey x = Some j \<longrightarrow> j \<notin> set (present_keys (save u s))"
      by auto
    with ih False have "distinct (present_keys (x # save u s))"
      by (cases "apiKey x") (simp_all add: present_keys_def)
    with False show ?thesis by (simp add: save_def)
  qed
qed

lemma wf_regenerate:
  assumes "wf_store s"
  shows "wf_store (snd (api_auth_regenerate jv uuid req s))"
proof (cases "authMiddleware jv req s")
  case (Pair r s1)
  note eq = auth_store_unchanged[OF Pair]
  show ?thesis
  proof (cases r)
    case (Inl e)
    with Pair eq assms show ?thesis by (simp add: api_auth_regenerate_def)
  next
    case (Inr u)
    let ?u1 = "u\<lparr>apiKey := Some (genApiKey uuid)\<rparr>"
    from Pair Inr have us: "u \<in> set s"
      using auth_Inr_in_store by blast
    show ?thesis
    proof (cases "\<exists>d\<in>set s. uid d \<noteq> uid u \<and> apiKey d = Some (genApiKey uuid)")
      case True
      with Pair Inr eq assms show ?thesis
        by (simp add: api_auth_regenerate_def Let_def)
    next
      case False
      have d: "distinct (map uid s)" "distinct (present_keys s)"
        using assms by (simp_all add: wf_store_def)
      have "map uid (save ?u1 s) = map uid s" "map email (save ?u1 s) = map email s"
        using d(1) us by (simp_all add: save_map_same)
      moreover have "distinct (present_keys (save ?u1 s))"
        using d False by (intro distinct_keys_save_new[where k = "genApiKey uuid"]) auto
      ultimately have "wf_store (save ?u1 s)"
        using assms by (simp add: wf_store_def)
      with Pair Inr eq False show ?thesis
        by (auto simp: api_auth_regenerate_def Let_def)
    qed
  qed
qed

lemma wf_apply_op: "wf_store s \<Longrightarrow> wf_store (apply_op jv js bh F x s)"
  by (cases x) (simp_all add: wf_signup wf_regenerate wf_protected wf_promote)

lemma wf_run_ops: "wf_store s \<Longrightarrow> wf_store (run_ops jv js bh F xs s)"
  by (induction xs arbitrary: s) (simp_all add: wf_apply_op)

lemma wf_history: "wf_store (run_ops jv js bh F xs [])"
  by (rule wf_run_ops) (simp add: wf_store_def present_keys_def)

text \<open>Every key in the store was made by \<open>genApiKey\<close> from a UUID of the history.\<close>

lemma keys_of_history:
  assumes "d \<in> set (run_ops jv js bh F xs [])" "apiKey d = Some k"
  shows "k \<in> genApiKey ` set (draws xs)"
proof (rule ccontr)
  assume "k \<notin> genApiKey ` set (draws xs)"
  then have "\<forall>d\<in>set (run_ops jv js bh F xs []). apiKey d \<noteq> Some k"
    unfolding draws_def by (intro key_absent_run_ops) simp_all
  with assms show False by blast
qed

text \<open>
  Claim C5. The store is the result of a history of requests, starting from
  the empty collection; the caller is resolved to account \<open>u\<close>, whose key is
  \<open>old\<close>; the route completes and answers \<open>new\<close>. The UUIDs that \<open>uuidv4()\<close> gives
  \<open>genApiKey\<close>, in that history, in this rotation and afterwards, are UUIDs and
  differ from one another. Then in the store the route leaves, a request with
  the key \<open>old\<close> is answered by 401 \<open>Invalid API key\<close> (the kind InvalidApiKey) and
  a request with the key \<open>new\<close> is resolved to the same account, now holding
  \<open>new\<close>. And \<open>old\<close> stays invalid after every later history of signups,
  rotations, protected requests and promotions.
\<close>

theorem regenerate_invalidates_old_key:
  assumes "s = run_ops jv js bh F hist []"
    and "authMiddleware jv req s = (Inr u, s)"
    and "apiKey u = Some old"
    and "api_auth_regenerate jv uuid req s = (ApiKeyJson new, s')"
    and "\<forall>x\<in>set (draws hist @ uuid # draws later). is_uuid x"
    and "distinct (draws hist @ uuid # draws later)"
  shows "new = genApiKey uuid
    \<and> authMiddleware jv \<lparr>x_api_key = Some old, authorization = h\<rparr> s' =
        (Inl (ErrorJson 401 ''Invalid API key''), s')
    \<and> error_kind_of (ErrorJson 401 ''Invalid API key'') = Some InvalidApiKey
    \<and> authMiddleware jv \<lparr>x_api_key = Some new, authorization = h\<rparr> s' =
        (Inr (u\<lparr>apiKey := Some new\<rparr>), s')
    \<and> authMiddleware jv \<lparr>x_api_key = Some old, authorization = h\<rparr> (run_ops jv js bh F later s') =
        (Inl (ErrorJson 401 ''Invalid API key''), run_ops jv js bh F later s')"
proof -
  let ?u1 = "u\<lparr>apiKey := Some (genApiKey uuid)\<rparr>"
  have us: "u \<in> set s"
    using auth_Inr_in_store[OF assms(2)] by (rule conjunct1)
  have keys: "distinct (present_keys s)"
    using wf_history[of jv js bh F hist] unfolding assms(1) by (simp add: wf_store_def)
  obtain x0 where x0: "x0 \<in> set (draws hist)" "old = genApiKey x0"
    using keys_of_history[of u jv js bh F hist old] us assms(3) unfolding assms(1) by auto
  have nonempty: "old \<noteq> []"
    unfolding x0(2) by (rule genApiKey_nonempty)
  have apart: "set (draws hist) \<inter> set (uuid # draws later) = {}"
    using assms(6) by simp
  have other: "genApiKey y \<noteq> old" if "y \<in> set (uuid # draws later)" for y
  proof
    assume e: "genApiKey y = old"
    have uy: "is_uuid y" and ux: "is_uuid x0"
      using assms(5) that x0(1) by auto
    from e x0(2) have "genApiKey y = genApiKey x0"
      by simp
    with uy ux have "y = x0"
      by (rule genApiKey_inj)
    with that x0(1) apart show False by blast
  qed
  have differs: "genApiKey uuid \<noteq> old"
    by (rule other) simp
  have later: "old \<notin> genApiKey ` set (concat (map op_uuids later))"
    using other unfolding draws_def by auto
  have reg: "api_auth_regenerate jv uuid req s =
      (if \<exists>d\<in>set s. uid d \<noteq> uid u \<and> apiKey d = Some (genApiKey uuid)
       then (ErrorJson 500 ''Regenerate failed'', s)
       else (ApiKeyJson (genApiKey uuid), save ?u1 s))"
    using assms(2) by (simp add: api_auth_regenerate_def Let_def)
  have free: "\<forall>d\<in>set s. uid d \<noteq> uid u \<longrightarrow> apiKey d \<noteq> Some (genApiKey uuid)"
    using reg assms(4) by (auto split: if_splits)
  have new: "new = genApiKey uuid" and s': "s' = save ?u1 s"
    using reg assms(4) by (auto split: if_splits)
  have absent: "\<forall>d\<in>set s'. apiKey d \<noteq> Some old"
  proof
    fix d assume "d \<in> set s'"
    then consider "d = ?u1" | "d \<in> set s" "uid d \<noteq> uid ?u1"
      unfolding s' using save_mem by blast
    then show "apiKey d \<noteq> Some old"
    proof cases
      case 1
      with differs show ?thesis by simp
    next
      case 2
      show ?thesis
      proof
        assume dk: "apiKey d = Some old"
        from keys 2(1) us dk assms(3) have "d = u"
          by (rule unique_key_owner)
        with 2(2) show False by simp
      qed
    qed
  qed
  have a: "authMiddleware jv \<lparr>x_api_key = Some old, authorization = h\<rparr> s' =
        (Inl (ErrorJson 401 ''Invalid API key''), s')"
    using nonempty absent by (rule auth_key_absent)
  have "find (\<lambda>d. apiKey d = Some (genApiKey uuid)) (save ?u1 s) = Some ?u1"
    using us free by (intro find_after_save) auto
  then have b: "authMiddleware jv \<lparr>x_api_key = Some new, authorization = h\<rparr> s' =
        (Inr (u\<lparr>apiKey := Some new\<rparr>), s')"
    unfolding new s' using genApiKey_nonempty[of uuid] by (intro auth_by_key) auto
  have "\<forall>d\<in>set (run_ops jv js bh F later s'). apiKey d \<noteq> Some old"
    using absent later by (rule key_absent_run_ops)
  with nonempty have c: "authMiddleware jv \<lparr>x_api_key = Some old, authorization = h\<rparr>
        (run_ops jv js bh F later s') =
        (Inl (ErrorJson 401 ''Invalid API key''), run_ops jv js bh F later s')"
    by (rule auth_key_absent)
  have k: "error_kind_of (ErrorJson 401 ''Invalid API key'') = Some InvalidApiKey"
    by (simp add: error_kind_of_def)
  from new a k b c show ?thesis by blast
qed

theorem regenerate_invalidates_old_key_witness:
  "run_ops no_token demo_sign demo_hash (Some 20)
      [Signup uuid_a 1 0 (credentials ''alice@example.org'' (Some ''1''))] [] =
     [alice\<lparr>apiKey := Some (genApiKey uuid_a)\<rparr>]
   \<and> api_auth_regenerate no_token uuid_b (by_key (genApiKey uuid_a))
        [alice\<lparr>apiKey := Some (genApiKey uuid_a)\<rparr>] =
       (ApiKeyJson (genApiKey uuid_b), [alice\<lparr>apiKey := Some (genApiKey uuid_b)\<rparr>])
   \<and> authMiddleware no_token (by_key (genApiKey uuid_a)) [alice\<lparr>apiKey := Some (genApiKey uuid_b)\<rparr>] =
       (Inl (ErrorJson 401 ''Invalid API key''), [alice\<lparr>apiKey := Some (genApiKey uuid_b)\<rparr>])
   \<and> authMiddleware no_token (by_key (genApiKey uuid_b)) [alice\<lparr>apiKey := Some (genApiKey uuid_b)\<rparr>] =
       (Inr (alice\<lparr>apiKey := Some (genApiKey uuid_b)\<rparr>), [alice\<lparr>apiKey := Some (genApiKey uuid_b)\<rparr>])"
proof -
  define hist where "hist = [Signup uuid_a 1 0 (credentials ''alice@example.org'' (Some ''1''))]"
  define later where "later = [Signup uuid_c 2 5 (credentials ''bob@example.org'' (Some ''2''))]"
  define s where "s = [alice\<lparr>apiKey := Some (genApiKey uuid_a)\<rparr>]"
  define s' where "s' = [alice\<lparr>apiKey := Some (genApiKey uuid_b)\<rparr>]"
  have ka: "genApiKey uuid_a \<noteq> []" and kb: "genApiKey uuid_b \<noteq> genApiKey uuid_a"
    by (simp_all add: genApiKey_def uuid_a_def uuid_b_def)
  have run: "s = run_ops no_token demo_sign demo_hash (Some 20) hist []"
    by (simp add: s_def hist_def api_auth_signup_def findOne_def insert_user_def credentials_def
        alice_def demo_hash_def Let_def)
  have au: "authMiddleware no_token (by_key (genApiKey uuid_a)) s = (Inr (alice\<lparr>apiKey := Some (genApiKey uuid_a)\<rparr>), s)"
    using ka by (simp add: authMiddleware_def findOne_def by_key_def s_def)
  have k: "apiKey (alice\<lparr>apiKey := Some (genApiKey uuid_a)\<rparr>) = Some (genApiKey uuid_a)"
    by simp
  have rg: "api_auth_regenerate no_token uuid_b (by_key (genApiKey uuid_a)) s = (ApiKeyJson (genApiKey uuid_b), s')"
    unfolding s'_def by (simp add: api_auth_regenerate_def au) (simp add: s_def save_def)
  have uu: "\<forall>x\<in>set (draws hist @ uuid_b # draws later). is_uuid x"
    "distinct (draws hist @ uuid_b # draws later)"
    unfolding hist_def later_def draws_def by code_simp+
  have "authMiddleware no_token \<lparr>x_api_key = Some (genApiKey uuid_a), authorization = None\<rparr> s' =
        (Inl (ErrorJson 401 ''Invalid API key''), s')
    \<and> authMiddleware no_token \<lparr>x_api_key = Some (genApiKey uuid_b), authorization = None\<rparr> s' =
        (Inr (alice\<lparr>apiKey := Some (genApiKey uuid_a)\<rparr>\<lparr>apiKey := Some (genApiKey uuid_b)\<rparr>), s')"
    using regenerate_invalidates_old_key[OF run au k rg uu, where h = None]
    by blast
  with run rg show ?thesis
    unfolding s_def s'_def hist_def by_key_def by simp
qed

section \<open>The split route\<close>

lemma pages_to_keep_falsy: "\<not> truthy q \<Longrightarrow> pages_to_keep q = Some [Some 0]"
  by (cases q) (simp_all add: pages_to_keep_def)

lemma pages_to_keep_2_3: "pages_to_keep (Some (utf16 ''2-3'')) = Some [Some 1, Some 2]"
  by code_simp

lemma pages_to_keep_0_10: "pages_to_keep (Some (utf16 ''0,10'')) = Some [Some (- 1), Some 9]"
  by code_simp

lemma in_range_indices_bounds:
  "\<forall>i\<in>set (in_range_indices n ks). 0 \<le> i \<and> i < int n"
  by (induction ks) (auto simp: in_range_indices_def split: option.splits)

lemma in_range_indices_filter:
  "map Some (in_range_indices n ks) =
     filter (\<lambda>x. case x of None \<Rightarrow> False | Some i \<Rightarrow> 0 \<le> i \<and> i < int n) ks"
  by (induction ks) (auto simp: in_range_indices_def split: option.splits)

lemma in_range_indices_none:
  "\<forall>x\<in>set ks. case x of None \<Rightarrow> True | Some i \<Rightarrow> i < 0 \<or> int n \<le> i \<Longrightarrow>
   in_range_indices n ks = []"
  by (induction ks) (auto simp: in_range_indices_def split: option.splits)

lemma copyPages_in_range:
  "copyPages pdf (in_range_indices (length pdf) ks) =
     Some (map (\<lambda>i. pdf ! nat i) (in_range_indices (length pdf) ks))"
  using in_range_indices_bounds[of "length pdf" ks] by (simp add: copyPages_def)

lemma api_split_loaded:
  "load f = Some pdf \<Longrightarrow>
   api_split load blank \<lparr>req_file = Some f, body_pages = b, query_pages = q\<rparr> =
     (case pages_to_keep (if truthy b then b else q) of
        None \<Rightarrow> Inl (ErrorJson 500 ''Split failed'')
      | Some ks \<Rightarrow>
          Inr (PDFDocument_save blank
                 (map (\<lambda>i. pdf ! nat i) (in_range_indices (length pdf) ks))))"
  by (simp add: api_split_def Let_def copyPages_in_range split: option.splits)

subsection \<open>The range loop\<close>

lemma bit_len_bound: "n < 2 ^ k \<Longrightarrow> bit_len n \<le> k"
proof (induction k arbitrary: n)
  case 0
  then show ?case by (simp add: bit_len.simps)
next
  case (Suc k)
  show ?case
  proof (cases "n \<le> 0")
    case True
    then show ?thesis by (simp add: bit_len.simps)
  next
    case False
    from Suc.prems have "n div 2 < 2 ^ k" by simp
    then have "bit_len (n div 2) \<le> k" by (rule Suc.IH)
    with False show ?thesis by (subst bit_len.simps) simp
  qed
qed

lemma js_le_safe: "\<bar>x\<bar> \<le> 9007199254740992 \<Longrightarrow> js_le x y = (x \<le> y)"
proof -
  assume "\<bar>x\<bar> \<le> 9007199254740992"
  then have "\<bar>x\<bar> < 2 ^ 1024"
    by (rule le_less_trans) simp
  then have "bit_len \<bar>x\<bar> \<le> 1024" by (rule bit_len_bound)
  then show ?thesis by (simp add: js_le_def is_infinite_def)
qed

lemma to_double_2_53:
  "to_double 9007199254740992 = 9007199254740992"
  "to_double (- 9007199254740992) = - 9007199254740992"
  by code_simp+

lemma to_double_safe: "\<bar>n\<bar> \<le> 9007199254740992 \<Longrightarrow> to_double n = n"
proof (cases "\<bar>n\<bar> < 9007199254740992")
  case True
  then show ?thesis by (simp add: to_double_def)
next
  case False
  assume "\<bar>n\<bar> \<le> 9007199254740992"
  with False have "n = 9007199254740992 \<or> n = - 9007199254740992" by arith
  then show ?thesis using to_double_2_53 by auto
qed

text \<open>
  Bounds below \<open>2^53\<close> and room in the array: the loop pushes \<open>a - 1\<close> to \<open>b - 1\<close>.
\<close>

lemma range_loop_short:
  "0 \<le> i \<Longrightarrow> i \<le> 9007199254740992 \<Longrightarrow> b < 9007199254740992 \<Longrightarrow>
   int (length acc) + (b - i + 1) \<le> js_array_max \<Longrightarrow>
   range_loop i b acc = Some (acc @ map (\<lambda>j. Some (j - 1)) [i..b])"
proof (induction i b acc rule: range_loop.induct)
  case (1 i b acc)
  show ?case
  proof (cases "i \<le> b")
    case False
    with "1.prems" show ?thesis
      by (subst range_loop.simps) (simp add: js_le_safe)
  next
    case True
    with "1.prems" have le: "js_le i b" and room: "int (length acc) < js_array_max"
      by (simp_all add: js_le_safe)
    have p: "push acc (Some (to_double (i - 1))) = Some (acc @ [Some (i - 1)])"
      using room "1.prems" True by (simp add: push_def to_double_safe)
    have n: "to_double (i + 1) = i + 1"
      using "1.prems" True by (simp add: to_double_safe)
    have "range_loop (i + 1) b (acc @ [Some (i - 1)]) =
        Some ((acc @ [Some (i - 1)]) @ map (\<lambda>j. Some (j - 1)) [i + 1..b])"
      using "1.IH"[OF le p] "1.prems" True unfolding n by simp
    moreover have "[i..b] = i # [i + 1..b]"
      using True by (simp add: upto_rec1)
    ultimately show ?thesis
      using le p n by (subst range_loop.simps) simp
  qed
qed

text \<open>More entries than an array holds: the loop throws.\<close>

lemma range_loop_long:
  "0 \<le> i \<Longrightarrow> b < 9007199254740992 \<Longrightarrow> int (length acc) \<le> js_array_max \<Longrightarrow>
   js_array_max < int (length acc) + (b - i + 1) \<Longrightarrow> range_loop i b acc = None"
proof (induction i b acc rule: range_loop.induct)
  case (1 i b acc)
  from "1.prems" have True: "i \<le> b" by simp
  with "1.prems" have le: "js_le i b" by (simp add: js_le_safe)
  show ?case
  proof (cases "int (length acc) < js_array_max")
    case False
    then have "push acc (Some (to_double (i - 1))) = None" by (simp add: push_def)
    with le show ?thesis by (subst range_loop.simps) simp
  next
    case room: True
    have p: "push acc (Some (to_double (i - 1))) = Some (acc @ [Some (i - 1)])"
      using room "1.prems" True by (simp add: push_def to_double_safe)
    have n: "to_double (i + 1) = i + 1"
      using "1.prems" room by (simp add: to_double_safe)
    have "range_loop (i + 1) b (acc @ [Some (i - 1)]) = None"
      using "1.IH"[OF le p] "1.prems" room unfolding n by simp
    with le p n show ?thesis by (subst range_loop.simps) simp
  qed
qed

lemma long_range_throws:
  "pages_to_keep (Some (utf16 ''1-10000000000'')) = None"
proof -
  have parts: "split_on (unit_of CHR '','') (utf16 ''1-10000000000'') = [utf16 ''1-10000000000'']"
    by code_simp
  have dash: "unit_of CHR ''-'' \<in> set (utf16 ''1-10000000000'')"
    by code_simp
  have ab: "map (\<lambda>x. parseInt (trim x)) (split_on (unit_of CHR ''-'') (utf16 ''1-10000000000'')) =
      [Some 1, Some 10000000000]"
    by code_simp
  have ne: "utf16 ''1-10000000000'' \<noteq> []"
    by code_simp
  have "range_loop 1 10000000000 [] = None"
    by (rule range_loop_long) (simp_all add: js_array_max_def)
  with dash ab have "push_part [] (utf16 ''1-10000000000'') = None"
    by (simp add: push_part_def)
  with parts ne show ?thesis
    by (simp add: pages_to_keep_def)
qed

subsection \<open>What the handler sends\<close>

text \<open>
  Claim C9, as the code has it. On a document of five pages the specification
  \<open>2-3\<close> gives the document of pages 2 and 3, in that order. For every
  specification whose list \<open>pagesToKeep\<close> the loop of lines 170 to 178 builds,
  and every document that loads, the handler answers a document and no error:
  \<open>filter\<close> keeps exactly the entries of the list inside the page range, in their
  order, an entry outside it (or \<open>NaN\<close>) is dropped, and the pages at the kept
  indices are copied. When every entry is outside, nothing is copied and
  \<open>save()\<close> writes a document of one blank page, not a document without pages.
\<close>

theorem split_keeps_pages_in_range:
  "(load f = Some [p1, p2, p3, p4, p5] \<longrightarrow>
      api_split load blank \<lparr>req_file = Some f, body_pages = Some (utf16 ''2-3''), query_pages = q\<rparr> =
        Inr [p2, p3])
   \<and> (load f = Some pdf \<and> pages_to_keep (if truthy b then b else q) = Some ks \<longrightarrow>
        api_split load blank \<lparr>req_file = Some f, body_pages = b, query_pages = q\<rparr> =
          Inr (PDFDocument_save blank
                 (map (\<lambda>i. pdf ! nat i) (in_range_indices (length pdf) ks)))
      \<and> ((\<forall>x\<in>set ks. case x of None \<Rightarrow> True | Some i \<Rightarrow> i < 0 \<or> int (length pdf) \<le> i) \<longrightarrow>
           api_split load blank \<lparr>req_file = Some f, body_pages = b, query_pages = q\<rparr> = Inr [blank]))
   \<and> map Some (in_range_indices n ks) =
        filter (\<lambda>x. case x of None \<Rightarrow> False | Some i \<Rightarrow> 0 \<le> i \<and> i < int n) ks"
proof -
  have A: "api_split load blank \<lparr>req_file = Some f, body_pages = Some (utf16 ''2-3''), query_pages = q\<rparr> =
        Inr [p2, p3]"
    if "load f = Some [p1, p2, p3, p4, p5]"
  proof -
    have t: "truthy (Some (utf16 ''2-3''))"
      by code_simp
    show ?thesis
      using api_split_loaded[of load f "[p1, p2, p3, p4, p5]" blank "Some (utf16 ''2-3'')" q] that t
      by (simp add: pages_to_keep_2_3 in_range_indices_def PDFDocument_save_def)
  qed
  have B: "api_split load blank \<lparr>req_file = Some f, body_pages = b, query_pages = q\<rparr> =
          Inr (PDFDocument_save blank
                 (map (\<lambda>i. pdf ! nat i) (in_range_indices (length pdf) ks)))"
    if "load f = Some pdf" "pages_to_keep (if truthy b then b else q) = Some ks"
    using api_split_loaded[of load f pdf blank b q] that by simp
  have C: "api_split load blank \<lparr>req_file = Some f, body_pages = b, query_pages = q\<rparr> = Inr [blank]"
    if "load f = Some pdf" "pages_to_keep (if truthy b then b else q) = Some ks"
      "\<forall>x\<in>set ks. case x of None \<Rightarrow> True | Some i \<Rightarrow> i < 0 \<or> int (length pdf) \<le> i"
    using B[OF that(1,2)] in_range_indices_none[OF that(3)] by (simp add: PDFDocument_save_def)
  from A B C in_range_indices_filter[of n ks] show ?thesis by blast
qed

theorem split_keeps_pages_in_range_witness:
  "api_split Some (CHR ''_'') (upload ''2-3'') = Inr ''bc''
   \<and> pages_to_keep (Some (utf16 ''0,10'')) = Some [Some (- 1), Some 9]
   \<and> api_split Some (CHR ''_'') (upload ''0,10'') = Inr ''_''"
proof -
  have l: "Some ''abcde'' = Some [CHR ''a'', CHR ''b'', CHR ''c'', CHR ''d'', CHR ''e'']"
    by simp
  have a: "api_split Some (CHR ''_'')
      \<lparr>req_file = Some ''abcde'', body_pages = Some (utf16 ''2-3''), query_pages = None\<rparr> = Inr ''bc''"
    using split_keeps_pages_in_range[where load = Some and f = "''abcde''" and ?p1.0 = "CHR ''a''"
        and ?p2.0 = "CHR ''b''" and ?p3.0 = "CHR ''c''" and ?p4.0 = "CHR ''d''" and ?p5.0 = "CHR ''e''"
        and q = None and blank = "CHR ''_''"] l
    by blast
  have t: "truthy (Some (utf16 ''0,10''))"
    by code_simp
  have built: "pages_to_keep (if truthy (Some (utf16 ''0,10'')) then Some (utf16 ''0,10'') else None) =
      Some [Some (- 1), Some 9]"
    using t by (simp add: pages_to_keep_0_10)
  have out: "\<forall>x\<in>set [Some (- 1), Some 9].
      case x of None \<Rightarrow> True | Some i \<Rightarrow> i < 0 \<or> int (length ''abcde'') \<le> i"
    by simp
  have b: "api_split Some (CHR ''_'')
      \<lparr>req_file = Some ''abcde'', body_pages = Some (utf16 ''0,10''), query_pages = None\<rparr> = Inr ''_''"
    using split_keeps_pages_in_range[where load = Some and f = "''abcde''" and pdf = "''abcde''"
        and b = "Some (utf16 ''0,10'')" and q = None and ks = "[Some (- 1), Some 9]"
        and blank = "CHR ''_''"] built out
    by blast
  from a b pages_to_keep_0_10 show ?thesis
    unfolding upload_def by blast
qed

text \<open>
  Claim C9 as stated fails on the code: for \<open>0,10\<close> on a document of five pages
  nothing is in range, and the document sent has one page, the blank one that
  \<open>save()\<close> adds; it is not a document without pages.
\<close>

theorem split_keeps_pages_in_range_counterexample:
  "api_split Some (CHR ''_'') (upload ''0,10'') = Inr [CHR ''_'']
   \<and> api_split Some (CHR ''_'') (upload ''0,10'') \<noteq> Inr []"
  by code_simp

text \<open>
  Claim C10. With no pages specification, neither in the body nor in the query
  (absent or empty), the output document is the first page of the input, for
  every input document that has a page.
\<close>

theorem split_default_first_page:
  "load f = Some (p # rest) \<Longrightarrow> \<not> truthy b \<Longrightarrow> \<not> truthy q \<Longrightarrow>
   api_split load blank \<lparr>req_file = Some f, body_pages = b, query_pages = q\<rparr> = Inr [p]"
  using api_split_loaded[of load f "p # rest" blank b q]
  by (simp add: pages_to_keep_falsy in_range_indices_def PDFDocument_save_def)

theorem split_default_first_page_witness:
  "api_split Some (CHR ''_'') \<lparr>req_file = Some ''abcde'', body_pages = None, query_pages = None\<rparr> =
     Inr ''a''
   \<and> api_split Some (CHR ''_'') \<lparr>req_file = Some ''abcde'', body_pages = Some [], query_pages = None\<rparr> =
     Inr ''a''"
proof -
  have l: "Some ''abcde'' = Some (CHR ''a'' # ''bcde'')"
    and n: "\<not> truthy (None :: js_string option)" "\<not> truthy (Some ([] :: js_string))"
    by simp_all
  have a: "api_split Some (CHR ''_'')
      \<lparr>req_file = Some ''abcde'', body_pages = None, query_pages = None\<rparr> = Inr ''a''"
    using split_default_first_page[where load = Some and f = "''abcde''" and p = "CHR ''a''"
        and rest = "''bcde''" and b = None and q = None and blank = "CHR ''_''"] l n
    by blast
  have b: "api_split Some (CHR ''_'')
      \<lparr>req_file = Some ''abcde'', body_pages = Some [], query_pages = None\<rparr> = Inr ''a''"
    using split_default_first_page[where load = Some and f = "''abcde''" and p = "CHR ''a''"
        and rest = "''bcde''" and b = "Some []" and q = None and blank = "CHR ''_''"] l n
    by blast
  from a b show ?thesis by blast
qed

section \<open>Two requests of one account in flight together\<close>

text \<open>A task that runs alone, await after await, does what \<open>protected\<close> does.\<close>

lemma task_alone:
  "interleave jv F [0, 0, 0] [Arrived req now] s =
     ([Finished (fst (protected jv F req now s))], snd (protected jv F req now s))"
proof (cases "authMiddleware jv req s")
  case (Pair r s1)
  show ?thesis
  proof (cases r)
    case (Inl e)
    with Pair show ?thesis by (simp add: protected_def)
  next
    case (Inr u)
    with Pair show ?thesis
      by (simp add: protected_def enforceLimit_def rollover_def limit_check_def plan_limit_def
          Let_def)
  qed
qed

text \<open>
  One unit of quota left, both requests inside the window: when both have read
  the account before either has saved it, both are admitted.
\<close>

lemma race_admits_both:
  assumes "k \<noteq> []" "find (\<lambda>d. apiKey d = Some k) s = Some a" "plan a = Free"
    "dailyReset a = Some t0" "ta - t0 \<le> 86400000" "tb - t0 \<le> 86400000"
    "dailyCount a = L - 1"
  shows "interleave jv (Some L) [0, 1, 0, 1]
      [Arrived \<lparr>x_api_key = Some k, authorization = h\<rparr> ta,
       Arrived \<lparr>x_api_key = Some k, authorization = h\<rparr> tb] s =
     ([Finished (Inr ()), Finished (Inr ())],
      save (a\<lparr>dailyCount := L\<rparr>) (save (a\<lparr>dailyCount := L\<rparr>) s))"
  using assms
  by (simp add: auth_by_key window_expired_def limit_check_def plan_limit_def)

lemma one_after_the_other:
  assumes "k \<noteq> []" "find (\<lambda>d. apiKey d = Some k) s = Some a" "plan a = Free"
    "dailyReset a = Some t0" "ta - t0 \<le> 86400000" "tb - t0 \<le> 86400000"
    "dailyCount a = L - 1"
  shows "interleave jv (Some L) [0, 0, 1, 1]
      [Arrived \<lparr>x_api_key = Some k, authorization = h\<rparr> ta,
       Arrived \<lparr>x_api_key = Some k, authorization = h\<rparr> tb] s =
     ([Finished (Inr ()), Finished (Inl (ErrorJson 429 ''Daily API limit reached''))],
      save (a\<lparr>dailyCount := L\<rparr>) s)"
proof -
  let ?a = "a\<lparr>dailyCount := L\<rparr>"
  have f: "find (\<lambda>d. apiKey d = Some k) (save ?a s) = Some ?a"
    using assms by (intro find_save) (auto dest: find_holds)
  have au: "authMiddleware jv \<lparr>x_api_key = Some k, authorization = h\<rparr> (save ?a s) = (Inr ?a, save ?a s)"
    using assms(1) f by (rule auth_by_key)
  show ?thesis
    using assms au
    by (simp add: auth_by_key window_expired_def limit_check_def plan_limit_def)
qed

text \<open>
  Claim C3, on the code. The account has used 19 of the 20 units of the default
  limit. Two requests with its key arrive together; each reads the account
  before the other has saved it. Both are admitted and the stored count is 20.
  Served one after the other, the first is admitted and the second is answered
  by 429.
\<close>

theorem concurrent_requests_both_admitted:
  "interleave no_token (FREE_LIMIT None) [0, 1, 0, 1]
      [Arrived (by_key ''pk_a'') 5, Arrived (by_key ''pk_a'') 6] [alice\<lparr>dailyCount := 19\<rparr>] =
     ([Finished (Inr ()), Finished (Inr ())], [alice\<lparr>dailyCount := 20\<rparr>])
   \<and> interleave no_token (FREE_LIMIT None) [0, 0, 1, 1]
      [Arrived (by_key ''pk_a'') 5, Arrived (by_key ''pk_a'') 6] [alice\<lparr>dailyCount := 19\<rparr>] =
     ([Finished (Inr ()), Finished (Inl (ErrorJson 429 ''Daily API limit reached''))],
      [alice\<lparr>dailyCount := 20\<rparr>])"
  by (simp add: FREE_LIMIT_default by_key_def alice_def authMiddleware_def findOne_def
      window_expired_def limit_check_def plan_limit_def save_def)

end
